theory Spec2Isabelle
  imports Complex_Main
begin

section \<open>concaveHull.js: data model\<close>

text \<open>
  A point is the two-element array \<^verbatim>\<open>[x, y]\<close> of the source. JavaScript numbers are
  modelled by the reals: every arithmetic operation of the source is the exact operation
  on \<^typ>\<open>real\<close>, and the values \<^verbatim>\<open>NaN\<close> and \<^verbatim>\<open>Infinity\<close> do not occur.
  The neighbour count \<^verbatim>\<open>k\<close> is an integer. Where a property rests on the rounding of
  the engine or on its zeros, the primitives are modelled again on binary64 values, in the
  sections on Numbers below.
\<close>

type_synonym point = "real \<times> real"

text \<open>What \<^verbatim>\<open>calculate\<close> hands back: \<^verbatim>\<open>null\<close>, an array of points, or a thrown
  \<^verbatim>\<open>TypeError\<close> (a property read on \<^verbatim>\<open>undefined\<close>).\<close>

datatype result = Null | Hull "point list" | Thrown

section \<open>Helper functions\<close>

text \<open>\<^verbatim>\<open>pointEquals(a, b)\<close>, lines 398-403.\<close>

definition pointEquals :: "point \<Rightarrow> point \<Rightarrow> bool" where
  "pointEquals a b = (if fst a = fst b \<and> snd a = snd b then True else False)"

text \<open>\<^verbatim>\<open>distance(p1, p2)\<close>, lines 411-413.\<close>

definition distance :: "point \<Rightarrow> point \<Rightarrow> real" where
  "distance p1 p2 = sqrt ((fst p2 - fst p1)\<^sup>2 + (snd p2 - snd p1)\<^sup>2)"

text \<open>\<^verbatim>\<open>arrayColumn(arr, 1)\<close>, lines 379-381: the second coordinate of every point.\<close>

definition arrayColumn1 :: "point list \<Rightarrow> real list" where
  "arrayColumn1 arr = map snd arr"

text \<open>\<^verbatim>\<open>arrayMax(a)\<close>, lines 388-390: \<^verbatim>\<open>Math.max(...a)\<close>. On the empty array the source
  yields \<^verbatim>\<open>-Infinity\<close>, which is no real number: \<open>None\<close>.\<close>

fun arrayMax :: "real list \<Rightarrow> real option" where
  "arrayMax [] = None"
| "arrayMax (x # xs) = Some (fold max xs x)"

text \<open>\<^verbatim>\<open>Array.prototype.indexOf\<close>: the first position holding the value, \<open>None\<close> for the
  source's \<^verbatim>\<open>-1\<close>.\<close>

fun indexOf :: "real list \<Rightarrow> real \<Rightarrow> nat option" where
  "indexOf [] v = None"
| "indexOf (x # xs) v = (if x = v then Some 0 else map_option Suc (indexOf xs v))"

text \<open>\<^verbatim>\<open>multiDimensionalUnique(arr)\<close>, lines 421-431. The dictionary \<^verbatim>\<open>itemsFound\<close> is keyed
  by \<^verbatim>\<open>JSON.stringify\<close> of the point; on pairs of finite numbers two points have the same
  key exactly when they are equal, so the point itself is the key.\<close>

fun multiDimensionalUnique_loop ::
  "point list \<Rightarrow> point list \<Rightarrow> (point \<rightharpoonup> bool) \<Rightarrow> point list" where
  "multiDimensionalUnique_loop [] uniques itemsFound = uniques"
| "multiDimensionalUnique_loop (a # arr) uniques itemsFound =
     (if itemsFound a = Some True then multiDimensionalUnique_loop arr uniques itemsFound
      else multiDimensionalUnique_loop arr (uniques @ [a]) (itemsFound(a \<mapsto> True)))"

definition multiDimensionalUnique :: "point list \<Rightarrow> point list" where
  "multiDimensionalUnique arr = multiDimensionalUnique_loop arr [] Map.empty"

text \<open>\<^verbatim>\<open>getLineLineCollision(p0, p1, p2, p3)\<close>, lines 442-484: \<open>None\<close> is the source's
  \<^verbatim>\<open>false\<close>, \<open>Some p\<close> the intersection point it returns.\<close>

definition getLineLineCollision :: "point \<Rightarrow> point \<Rightarrow> point \<Rightarrow> point \<Rightarrow> point option" where
  "getLineLineCollision p0 p1 p2 p3 =
     (let s10_x = fst p1 - fst p0;
          s10_y = snd p1 - snd p0;
          s32_x = fst p3 - fst p2;
          s32_y = snd p3 - snd p2;
          denom = s10_x * s32_y - s32_x * s10_y
      in if denom = 0 then None
         else
           let denom_positive = (denom > 0);
               s02_x = fst p0 - fst p2;
               s02_y = snd p0 - snd p2;
               s_numer = s10_x * s02_y - s10_y * s02_x
           in if (s_numer < 0) = denom_positive then None
              else
                let t_numer = s32_x * s02_y - s32_y * s02_x
                in if (t_numer < 0) = denom_positive then None
                   else if (s_numer > denom) = denom_positive \<or> (t_numer > denom) = denom_positive
                   then None
                   else
                     let t = t_numer / denom
                     in Some (fst p0 + t * s10_x, snd p0 + t * s10_y))"

text \<open>\<^verbatim>\<open>pointInPolygonNested(point, vs)\<close>, lines 496-510, called without \<^verbatim>\<open>start\<close> and
  \<^verbatim>\<open>end\<close>, so that \<^verbatim>\<open>start = 0\<close> and \<^verbatim>\<open>len = vs.length\<close>. The loop
  \<^verbatim>\<open>for (i = 0, j = len - 1; i < len; j = i++)\<close> is the recursion on \<open>i\<close>; the division
  is evaluated only behind \<^verbatim>\<open>&&\<close>, where \<open>yj \<noteq> yi\<close>.\<close>

function pointInPolygonNested_loop :: "point \<Rightarrow> point list \<Rightarrow> nat \<Rightarrow> nat \<Rightarrow> bool \<Rightarrow> bool" where
  "pointInPolygonNested_loop point vs i j inside =
     (if i < length vs then
        let x = fst point; y = snd point;
            xi = fst (vs ! i); yi = snd (vs ! i);
            xj = fst (vs ! j); yj = snd (vs ! j);
            intersect = (((yi > y) \<noteq> (yj > y)) \<and> (x < (xj - xi) * (y - yi) / (yj - yi) + xi))
        in pointInPolygonNested_loop point vs (i + 1) i (if intersect then \<not> inside else inside)
      else inside)"
  by pat_completeness auto
termination
  by (relation "measure (\<lambda>(point, vs, i, j, inside). length vs - i)") auto

definition pointInPolygonNested :: "point \<Rightarrow> point list \<Rightarrow> bool" where
  "pointInPolygonNested point vs = pointInPolygonNested_loop point vs 0 (length vs - 1) False"

section \<open>Supporting methods of the algorithm\<close>

text \<open>\<^verbatim>\<open>CleanList(points)\<close>, lines 174-179.\<close>

definition CleanList :: "point list \<Rightarrow> point list" where
  "CleanList points = multiDimensionalUnique points"

text \<open>\<^verbatim>\<open>FindMinYPoint(points)\<close>, lines 188-195: the first index of the maximum second
  coordinate.\<close>

definition FindMinYPoint :: "point list \<Rightarrow> nat option" where
  "FindMinYPoint points =
     (let y_coordinates = arrayColumn1 points
      in case arrayMax y_coordinates of
           None \<Rightarrow> None
         | Some m \<Rightarrow> indexOf y_coordinates m)"

text \<open>\<^verbatim>\<open>RemovePoint(points, point)\<close>, lines 203-210: splices out the first match; when no
  element matches the source falls off the loop and returns \<^verbatim>\<open>undefined\<close>: \<open>None\<close>.\<close>

fun RemovePoint :: "point list \<Rightarrow> point \<Rightarrow> point list option" where
  "RemovePoint [] point = None"
| "RemovePoint (p # points) point =
     (if pointEquals p point then Some points
      else map_option (Cons p) (RemovePoint points point))"

text \<open>\<^verbatim>\<open>AddPoint(points, point)\<close>, lines 218-221.\<close>

definition AddPoint :: "point list \<Rightarrow> point \<Rightarrow> point list" where
  "AddPoint points point = points @ [point]"

text \<open>\<^verbatim>\<open>Array.prototype.sort(compare)\<close>. Both comparators of the source return \<open>-1\<close> or
  \<open>1\<close> and never \<open>0\<close>; on elements with equal keys they are not a consistent comparison
  and the language leaves the order of such elements to the engine. The model inserts the
  elements one by one, each before the first element it compares below; without equal keys
  this is the one sorted order.\<close>

fun insert_compare :: "('a \<Rightarrow> 'a \<Rightarrow> int) \<Rightarrow> 'a \<Rightarrow> 'a list \<Rightarrow> 'a list" where
  "insert_compare compare x [] = [x]"
| "insert_compare compare x (y # ys) =
     (if compare x y < 0 then x # y # ys else y # insert_compare compare x ys)"

definition array_sort :: "('a \<Rightarrow> 'a \<Rightarrow> int) \<Rightarrow> 'a list \<Rightarrow> 'a list" where
  "array_sort compare xs = foldl (\<lambda>acc x. insert_compare compare x acc) [] xs"

text \<open>\<^verbatim>\<open>NearestPoints(points, point, k)\<close>, lines 230-258. A candidate is the pair of the
  point and its distance (the \<^verbatim>\<open>id\<close> field is never read).\<close>

definition NearestPoints :: "point list \<Rightarrow> point \<Rightarrow> int \<Rightarrow> point list" where
  "NearestPoints points point k =
     (let candidates = map (\<lambda>p. (p, distance p point)) points;
          candidates = array_sort (\<lambda>a b. if snd a > snd b then 1 else -1) candidates;
          k = min k (int (length candidates))
      in map fst (take (nat k) candidates))"

text \<open>\<^verbatim>\<open>Math.atan2(y, x)\<close> on the reals.\<close>

definition atan2 :: "real \<Rightarrow> real \<Rightarrow> real" where
  "atan2 y x =
     (if x > 0 then arctan (y / x)
      else if x < 0 then (if y \<ge> 0 then arctan (y / x) + pi else arctan (y / x) - pi)
      else if y > 0 then pi / 2
      else if y < 0 then - (pi / 2)
      else 0)"

text \<open>\<^verbatim>\<open>Angle(pointA, pointB)\<close>, lines 352-365.\<close>

definition Angle :: "point \<Rightarrow> point \<Rightarrow> real" where
  "Angle pointA pointB =
     (let angle = atan2 (snd pointB - snd pointA) (fst pointB - fst pointA);
          angle = pi - angle
      in if angle < 0 then angle + 2 * pi else angle)"

text \<open>\<^verbatim>\<open>SortByAngle(points, point, prev_angle)\<close>, lines 269-302. A candidate is the pair of
  the point and its angle (\<^verbatim>\<open>id\<close> and \<^verbatim>\<open>degrees\<close> are never read).\<close>

definition SortByAngle :: "point list \<Rightarrow> point \<Rightarrow> real \<Rightarrow> point list" where
  "SortByAngle points point prev_angle =
     (let candidates =
            map (\<lambda>p. let angle = prev_angle - Angle p point
                      in (p, if angle < 0 then angle + 2 * pi else angle)) points;
          candidates = array_sort (\<lambda>a b. if snd a > snd b then -1 else 1) candidates
      in map fst candidates)"

text \<open>\<^verbatim>\<open>IntersectsQ(lineA, lineB)\<close>, lines 313-327; a line is the pair of its end points.\<close>

definition IntersectsQ :: "point \<times> point \<Rightarrow> point \<times> point \<Rightarrow> bool" where
  "IntersectsQ lineA lineB =
     (if getLineLineCollision (fst lineA) (snd lineA) (fst lineB) (snd lineB) \<noteq> None
      then True else False)"

text \<open>\<^verbatim>\<open>PointInPolygonQ(point, points)\<close>, lines 337-342.\<close>

definition PointInPolygonQ :: "point \<Rightarrow> point list \<Rightarrow> bool" where
  "PointInPolygonQ point points = pointInPolygonNested point points"

section \<open>The Moreira and Santos algorithm\<close>

text \<open>The variable \<^verbatim>\<open>hull\<close> of the source is written \<open>hullv\<close>.\<close>

text \<open>The inner loop of lines 114-125: the prospective edge from \<^verbatim>\<open>hull[step-2]\<close> to the
  candidate is tested against the hull edge \<^verbatim>\<open>[hull[step-2-j], hull[step-1-j]]\<close> for
  \<open>j = 2, 3, ...\<close> while nothing intersects and \<^verbatim>\<open>j < hull.length - lastPoint\<close>. The main
  loop keeps \<^verbatim>\<open>step = hull.length + 1\<close>, so every index read here is in range.\<close>

function edge_loop :: "point list \<Rightarrow> nat \<Rightarrow> point \<Rightarrow> nat \<Rightarrow> bool \<Rightarrow> nat \<Rightarrow> bool" where
  "edge_loop hullv step candidate lastPoint intersects j =
     (if intersects = False \<and> j < length hullv - lastPoint then
        edge_loop hullv step candidate lastPoint
          (IntersectsQ (hullv ! (step - 2), candidate)
                       (hullv ! (step - 2 - j), hullv ! (step - 1 - j)))
          (j + 1)
      else intersects)"
  by pat_completeness auto
termination
  by (relation "measure (\<lambda>(hullv, step, candidate, lastPoint, intersects, j).
        length hullv - lastPoint - j)") auto

text \<open>The candidate loop of lines 99-126: returns the final \<^verbatim>\<open>intersects\<close> and \<^verbatim>\<open>i\<close>.\<close>

function candidate_loop ::
  "point \<Rightarrow> point list \<Rightarrow> nat \<Rightarrow> point list \<Rightarrow> bool \<Rightarrow> nat \<Rightarrow> bool \<times> nat" where
  "candidate_loop firstPoint hullv step cPoints intersects i =
     (if intersects = True \<and> i < length cPoints then
        let i = i + 1;
            lastPoint = (if pointEquals (cPoints ! (i - 1)) firstPoint then 1 else 0);
            j = 2;
            intersects = False;
            intersects = edge_loop hullv step (cPoints ! (i - 1)) lastPoint intersects j
        in candidate_loop firstPoint hullv step cPoints intersects i
      else (intersects, i))"
  by pat_completeness auto
termination
  by (relation "measure (\<lambda>(firstPoint, hullv, step, cPoints, intersects, i).
        length cPoints - i)") auto

text \<open>How one pass through lines 59-162 ends: with a retry (\<^verbatim>\<open>calculate(pointsList, kk+1)\<close>),
  with the hull returned, or with a \<^verbatim>\<open>TypeError\<close>.\<close>

datatype attempt = Retry | Found "point list" | Failed

text \<open>The main loop of lines 83-145. It ends with the hull and what is left of the
  dataset. When \<^verbatim>\<open>RemovePoint\<close> returns \<^verbatim>\<open>undefined\<close> the next read of
  \<^verbatim>\<open>dataset.length\<close> throws; \<open>None\<close> stands for the retry of line 130.\<close>

datatype loop_exit = Intersecting | Closed "point list" "point list" | NoDataset

function main_loop ::
  "point \<Rightarrow> int \<Rightarrow> nat \<Rightarrow> point list \<Rightarrow> point list \<Rightarrow> point \<Rightarrow> real \<Rightarrow> nat \<Rightarrow> loop_exit" where
  "main_loop firstPoint kk stop dataset hullv currentPoint previousAngle step =
     (if (\<not> pointEquals currentPoint firstPoint \<or> step = 2) \<and> length dataset > 0 then
        let dataset = (if step = stop then AddPoint dataset firstPoint else dataset);
            kNearestPoints = NearestPoints dataset currentPoint kk;
            cPoints = SortByAngle kNearestPoints currentPoint previousAngle;
            (intersects, i) = candidate_loop firstPoint hullv step cPoints True 0
        in if intersects = True then Intersecting
           else
             let currentPoint = cPoints ! (i - 1);
                 hullv = AddPoint hullv currentPoint;
                 previousAngle = Angle (hullv ! (step - 2)) (hullv ! (step - 1))
             in case RemovePoint dataset currentPoint of
                  None \<Rightarrow> NoDataset
                | Some dataset \<Rightarrow>
                    main_loop firstPoint kk stop dataset hullv currentPoint previousAngle (step + 1)
      else Closed hullv dataset)"
  by pat_completeness auto

lemma RemovePoint_length:
  "RemovePoint ps p = Some qs \<Longrightarrow> Suc (length qs) = length ps"
  by (induction ps arbitrary: qs) (auto split: if_splits)

text \<open>Every pass removes one point of the dataset; the pass at \<^verbatim>\<open>step == stop\<close> first adds
  one, and happens once.\<close>

termination main_loop
  apply (relation "measure (\<lambda>(firstPoint, kk, stop, dataset, hullv, currentPoint, previousAngle, step).
        2 * length dataset + (if step \<le> stop then 1 else 0))")
   apply simp
  apply (drule RemovePoint_length)
  apply (simp add: AddPoint_def split: if_splits)
  done

text \<open>The loop of lines 149-154 over what is left of the dataset, from its last element
  down.\<close>

function allInside_loop :: "point list \<Rightarrow> point list \<Rightarrow> bool \<Rightarrow> int \<Rightarrow> bool" where
  "allInside_loop dataset hullv allInside i =
     (if allInside = True \<and> i \<ge> 0 then
        allInside_loop dataset hullv (PointInPolygonQ (dataset ! nat i) hullv) (i - 1)
      else allInside)"
  by pat_completeness auto
termination
  by (relation "measure (\<lambda>(dataset, hullv, allInside, i). nat (i + 1))") auto

text \<open>Lines 59-162 of \<^verbatim>\<open>calculate\<close>, for the deduplicated dataset of four or more points
  and the clamped \<^verbatim>\<open>kk\<close>: the seed, the main loop and the check of the points left over.
  \<^verbatim>\<open>FindMinYPoint\<close> finds no index only on an empty dataset, where the source goes on
  with \<^verbatim>\<open>undefined\<close> and throws.\<close>

definition calculate_pass :: "point list \<Rightarrow> int \<Rightarrow> attempt" where
  "calculate_pass dataset kk =
     (case FindMinYPoint dataset of
        None \<Rightarrow> Failed
      | Some firstPointId \<Rightarrow>
          (let firstPoint = dataset ! firstPointId;
               hullv = AddPoint [] (dataset ! firstPointId);
               currentPoint = firstPoint
           in (case RemovePoint dataset firstPoint of
                 None \<Rightarrow> Failed
               | Some dataset \<Rightarrow>
                   (let previousAngle = pi;
                        step = 2;
                        stop = step + nat kk
                    in (case main_loop firstPoint kk stop dataset hullv currentPoint
                               previousAngle step of
                          Intersecting \<Rightarrow> Retry
                        | NoDataset \<Rightarrow> Failed
                        | Closed hullv dataset \<Rightarrow>
                            (let allInside =
                                   allInside_loop dataset hullv True (int (length dataset) - 1)
                             in if allInside = False then Retry else Found hullv))))))"

text \<open>\<^verbatim>\<open>calculate(pointsList, k)\<close>, lines 32-163. The retries of lines 130 and 158 are the
  recursion; a chain of retries that never ends is the value \<open>None\<close>.\<close>

partial_function (option) calculate :: "point list \<Rightarrow> int \<Rightarrow> result option" where
  "calculate pointsList k =
     (let kk = max k 3
      in if kk \<ge> int (length pointsList) then Some Null
         else
           let dataset = CleanList pointsList
           in if length dataset < 3 then Some Null
              else if length dataset = 3 then Some (Hull dataset)
              else
                let kk = min kk (int (length dataset) - 1)
                in case calculate_pass dataset kk of
                     Retry \<Rightarrow> calculate pointsList (kk + 1)
                   | Failed \<Rightarrow> Some Thrown
                   | Found hullv \<Rightarrow> Some (Hull hullv))"

section \<open>Properties of the supporting methods\<close>

declare main_loop.simps [simp del] edge_loop.simps [simp del] candidate_loop.simps [simp del]
  allInside_loop.simps [simp del] pointInPolygonNested_loop.simps [simp del]

lemma pointEquals_iff [simp]: "pointEquals a b \<longleftrightarrow> a = b"
  by (auto simp: pointEquals_def prod_eq_iff)

subsection \<open>Deduplication\<close>

lemma multiDimensionalUnique_loop_set:
  "set (multiDimensionalUnique_loop arr uniques itemsFound) = set uniques \<union> set arr"
  if "\<And>a. itemsFound a = Some True \<longleftrightarrow> a \<in> set uniques"
  using that by (induction arr uniques itemsFound rule: multiDimensionalUnique_loop.induct) auto

lemma multiDimensionalUnique_loop_distinct:
  "distinct (multiDimensionalUnique_loop arr uniques itemsFound)"
  if "\<And>a. itemsFound a = Some True \<longleftrightarrow> a \<in> set uniques" "distinct uniques"
  using that by (induction arr uniques itemsFound rule: multiDimensionalUnique_loop.induct) auto

lemma multiDimensionalUnique_loop_id:
  "multiDimensionalUnique_loop arr uniques itemsFound = uniques @ arr"
  if "\<And>a. itemsFound a = Some True \<longleftrightarrow> a \<in> set uniques" "distinct arr" "set arr \<inter> set uniques = {}"
  using that by (induction arr uniques itemsFound rule: multiDimensionalUnique_loop.induct) auto

lemma set_CleanList [simp]: "set (CleanList points) = set points"
  by (simp add: CleanList_def multiDimensionalUnique_def multiDimensionalUnique_loop_set)

lemma distinct_CleanList [simp]: "distinct (CleanList points)"
  by (simp add: CleanList_def multiDimensionalUnique_def multiDimensionalUnique_loop_distinct)

lemma CleanList_distinct_id: "distinct points \<Longrightarrow> CleanList points = points"
  by (simp add: CleanList_def multiDimensionalUnique_def multiDimensionalUnique_loop_id)

lemma CleanList_idem [simp]: "CleanList (CleanList points) = CleanList points"
  by (simp add: CleanList_distinct_id)

lemma length_CleanList_le: "length (CleanList points) \<le> length points"
  by (metis distinct_CleanList set_CleanList distinct_card card_length)

subsection \<open>Sorting\<close>

lemma set_insert_compare [simp]: "set (insert_compare c x ys) = insert x (set ys)"
  by (induction ys) auto

lemma length_insert_compare [simp]: "length (insert_compare c x ys) = Suc (length ys)"
  by (induction ys) auto

lemma set_foldl_insert_compare:
  "set (foldl (\<lambda>acc x. insert_compare c x acc) acc xs) = set acc \<union> set xs"
  by (induction xs arbitrary: acc) auto

lemma length_foldl_insert_compare:
  "length (foldl (\<lambda>acc x. insert_compare c x acc) acc xs) = length acc + length xs"
  by (induction xs arbitrary: acc) auto

lemma set_array_sort [simp]: "set (array_sort c xs) = set xs"
  by (simp add: array_sort_def set_foldl_insert_compare)

lemma length_array_sort [simp]: "length (array_sort c xs) = length xs"
  by (simp add: array_sort_def length_foldl_insert_compare)

lemma set_NearestPoints: "set (NearestPoints points point k) \<subseteq> set points"
proof -
  have "set (map fst (take n (array_sort c (map (\<lambda>p. (p, f p)) points)))) \<subseteq> set points" for n c f
  proof -
    have "set (take n (array_sort c (map (\<lambda>p. (p, f p)) points))) \<subseteq> set (map (\<lambda>p. (p, f p)) points)"
      using set_take_subset[of n "array_sort c (map (\<lambda>p. (p, f p)) points)"] by simp
    then show ?thesis by auto
  qed
  then show ?thesis by (simp add: NearestPoints_def Let_def)
qed

lemma length_NearestPoints:
  "length (NearestPoints points point k) = min (nat k) (length points)"
  by (simp add: NearestPoints_def Let_def)

lemma set_SortByAngle [simp]: "set (SortByAngle points point a) = set points"
  by (simp add: SortByAngle_def Let_def image_image)

lemma length_SortByAngle [simp]: "length (SortByAngle points point a) = length points"
  by (simp add: SortByAngle_def Let_def)

subsection \<open>Removing a point\<close>

lemma RemovePoint_Some_iff: "(\<exists>qs. RemovePoint ps p = Some qs) \<longleftrightarrow> p \<in> set ps"
  by (induction ps) auto

lemma RemovePoint_set:
  "RemovePoint ps p = Some qs \<Longrightarrow> distinct ps \<Longrightarrow> set qs = set ps - {p} \<and> distinct qs \<and> p \<in> set ps"
  by (induction ps arbitrary: qs) (auto split: if_splits)

lemma RemovePoint_notin: "p \<notin> set ps \<Longrightarrow> RemovePoint ps p = None"
  by (induction ps) auto

subsection \<open>The seed\<close>

lemma fold_max_ge: "(x::real) \<le> fold max xs x"
  by (induction xs arbitrary: x) (auto intro: order_trans[OF max.cobounded2])

lemma fold_max_in: "fold max xs (x::real) \<in> set (x # xs)"
proof (induction xs arbitrary: x)
  case Nil then show ?case by simp
next
  case (Cons y ys)
  have "fold max ys (max y x) \<in> set (max y x # ys)" by (rule Cons.IH)
  moreover have "max y x = x \<or> max y x = y" by (simp add: max_def)
  ultimately show ?case by auto
qed

lemma indexOf_Some: "v \<in> set xs \<Longrightarrow> \<exists>i. indexOf xs v = Some i \<and> i < length xs \<and> xs ! i = v"
  by (induction xs) auto

lemma FindMinYPoint_Some:
  "points \<noteq> [] \<Longrightarrow> \<exists>i. FindMinYPoint points = Some i \<and> i < length points"
proof -
  assume "points \<noteq> []"
  then obtain p ps where points: "points = p # ps" by (cases points) auto
  have "fold max (map snd ps) (snd p) \<in> set (map snd points)"
    using fold_max_in[of "map snd ps" "snd p"] by (simp add: points)
  from indexOf_Some[OF this] show ?thesis
    by (auto simp: FindMinYPoint_def arrayColumn1_def points)
qed

section \<open>Invariants of the main loop\<close>

definition loop_inv ::
  "point list \<Rightarrow> point \<Rightarrow> nat \<Rightarrow> point list \<Rightarrow> point list \<Rightarrow> point \<Rightarrow> nat \<Rightarrow> bool" where
  "loop_inv D fp stop ds h cur step \<longleftrightarrow>
     h \<noteq> [] \<and> hd h = fp \<and> last h = cur \<and> step = length h + 1 \<and> distinct ds \<and>
     set h \<union> set ds = set D \<and>
     ((distinct h \<and> set h \<inter> set ds \<subseteq> {fp} \<and> (fp \<in> set ds \<longrightarrow> stop < step)) \<or>
      (2 \<le> length h \<and> cur = fp \<and> distinct (butlast h) \<and> set h \<inter> set ds = {} \<and> 2 < step))"

definition edges_clear :: "point list \<Rightarrow> bool" where
  "edges_clear h \<longleftrightarrow>
     (\<forall>i j. i + 1 < j \<and> j + 1 < length h \<and> \<not> (i = 0 \<and> j + 2 = length h \<and> h ! (j + 1) = h ! 0)
        \<longrightarrow> \<not> IntersectsQ (h ! j, h ! (j + 1)) (h ! i, h ! (i + 1)))"

lemma edge_loop_False:
  "edge_loop h st c lp b j0 = False \<Longrightarrow>
   b = False \<and> (\<forall>j. j0 \<le> j \<and> j < length h - lp \<longrightarrow>
      \<not> IntersectsQ (h ! (st - 2), c) (h ! (st - 2 - j), h ! (st - 1 - j)))"
proof (induction h st c lp b j0 rule: edge_loop.induct)
  case (1 h st c lp b j0)
  show ?case
  proof (cases "b = False \<and> j0 < length h - lp")
    case True
    with "1.prems" have r: "edge_loop h st c lp
          (IntersectsQ (h ! (st - 2), c) (h ! (st - 2 - j0), h ! (st - 1 - j0))) (j0 + 1) = False"
      by (subst (asm) edge_loop.simps) simp
    from "1.IH"[OF True r] have
      a: "\<not> IntersectsQ (h ! (st - 2), c) (h ! (st - 2 - j0), h ! (st - 1 - j0))" and
      b: "\<forall>j. j0 + 1 \<le> j \<and> j < length h - lp \<longrightarrow>
            \<not> IntersectsQ (h ! (st - 2), c) (h ! (st - 2 - j), h ! (st - 1 - j))"
      by auto
    have "\<not> IntersectsQ (h ! (st - 2), c) (h ! (st - 2 - j), h ! (st - 1 - j))"
      if "j0 \<le> j" "j < length h - lp" for j
    proof (cases "j = j0")
      case True with a show ?thesis by simp
    next
      case False with that b show ?thesis by auto
    qed
    with True show ?thesis by blast
  next
    case False
    with "1.prems" have "b = False" by (subst (asm) edge_loop.simps) auto
    with False show ?thesis by auto
  qed
qed

lemma candidate_loop_False:
  "candidate_loop fp h st cs b i = (False, i') \<Longrightarrow> i \<le> length cs \<Longrightarrow>
   (b = False \<and> i' = i) \<or>
   (i < i' \<and> i' \<le> length cs \<and>
    edge_loop h st (cs ! (i' - 1)) (if pointEquals (cs ! (i' - 1)) fp then 1 else 0) False 2 = False)"
proof (induction fp h st cs b i rule: candidate_loop.induct)
  case (1 fp h st cs b i)
  show ?case
  proof (cases "b = True \<and> i < length cs")
    case True
    define b' where "b' = edge_loop h st (cs ! i) (if pointEquals (cs ! i) fp then 1 else 0) False 2"
    from "1.prems"(1) True have r: "candidate_loop fp h st cs b' (i + 1) = (False, i')"
      by (subst (asm) candidate_loop.simps) (simp add: b'_def Let_def)
    have "(b' = False \<and> i' = i + 1) \<or>
      (i + 1 < i' \<and> i' \<le> length cs \<and>
       edge_loop h st (cs ! (i' - 1)) (if pointEquals (cs ! (i' - 1)) fp then 1 else 0) False 2 = False)"
      using "1.IH"[OF True refl refl refl refl, of b'] r True
      by (simp add: b'_def)
    then show ?thesis using True by (auto simp: b'_def)
  next
    case False
    with "1.prems"(1) have "b = False \<and> i' = i"
      by (subst (asm) candidate_loop.simps) auto
    then show ?thesis by simp
  qed
qed

lemma candidate_loop_chosen:
  assumes "candidate_loop fp h st cs True 0 = (False, i)"
  shows "0 < i \<and> i \<le> length cs \<and>
    (\<forall>j. 2 \<le> j \<and> j < length h - (if cs ! (i - 1) = fp then 1 else 0) \<longrightarrow>
       \<not> IntersectsQ (h ! (st - 2), cs ! (i - 1)) (h ! (st - 2 - j), h ! (st - 1 - j)))"
proof -
  from candidate_loop_False[OF assms] have
    i: "0 < i" "i \<le> length cs" and
    e: "edge_loop h st (cs ! (i - 1)) (if cs ! (i - 1) = fp then 1 else 0) False 2 = False"
    by auto
  from edge_loop_False[OF e] i show ?thesis by blast
qed

lemma edges_clear_snoc:
  assumes ec: "edges_clear h" and ne: "h \<noteq> []" and dh: "distinct h"
    and chk: "\<forall>j. 2 \<le> j \<and> j < length h - (if c = hd h then 1 else 0) \<longrightarrow>
       \<not> IntersectsQ (h ! (length h - 1), c) (h ! (length h - 1 - j), h ! (length h - j))"
  shows "edges_clear (h @ [c])"
  unfolding edges_clear_def
proof (intro allI impI)
  fix i j
  assume a: "i + 1 < j \<and> j + 1 < length (h @ [c]) \<and>
     \<not> (i = 0 \<and> j + 2 = length (h @ [c]) \<and> (h @ [c]) ! (j + 1) = (h @ [c]) ! 0)"
  have h0: "(h @ [c]) ! 0 = hd h" using ne by (simp add: nth_append hd_conv_nth)
  show "\<not> IntersectsQ ((h @ [c]) ! j, (h @ [c]) ! (j + 1)) ((h @ [c]) ! i, (h @ [c]) ! (i + 1))"
  proof (cases "j + 1 < length h")
    case True
    have neq: "\<not> (i = 0 \<and> j + 2 = length h \<and> h ! (j + 1) = h ! 0)"
    proof
      assume b: "i = 0 \<and> j + 2 = length h \<and> h ! (j + 1) = h ! 0"
      with a have "j + 1 \<noteq> 0" "j + 1 < length h" "0 < length h" by auto
      with dh b show False by (auto simp: distinct_conv_nth)
    qed
    from ec True a neq have "\<not> IntersectsQ (h ! j, h ! (j + 1)) (h ! i, h ! (i + 1))"
      unfolding edges_clear_def by blast
    then show ?thesis using True a by (simp add: nth_append)
  next
    case False
    with a have j: "j + 1 = length h" by simp
    define j' where "j' = length h - 1 - i"
    from a j have j'2: "2 \<le> j'" and ij: "i = length h - 1 - j'" "i + 1 = length h - j'"
      by (auto simp: j'_def)
    have "j' < length h - (if c = hd h then 1 else 0)"
    proof (cases "c = hd h")
      case True
      with a j h0 have "i \<noteq> 0" by (auto simp: nth_append)
      with True a j show ?thesis by (auto simp: j'_def)
    next
      case False
      with a j show ?thesis by (auto simp: j'_def)
    qed
    with chk j'2 have "\<not> IntersectsQ (h ! (length h - 1), c) (h ! (length h - 1 - j'), h ! (length h - j'))"
      by blast
    then have "\<not> IntersectsQ (h ! j, c) (h ! i, h ! Suc i)"
      using j ij by (metis Suc_eq_plus1 diff_add_inverse2)
    then show ?thesis using a j by (simp add: nth_append)
  qed
qed

lemma loop_step:
  assumes inv: "loop_inv D fp stop ds h cur step" and ec: "edges_clear h"
    and cond: "(cur \<noteq> fp \<or> step = 2) \<and> ds \<noteq> []"
    and ds1: "ds1 = (if step = stop then AddPoint ds fp else ds)"
    and cs: "set cs \<subseteq> set ds1"
    and cl: "candidate_loop fp h step cs True 0 = (False, i)"
    and rp: "RemovePoint ds1 (cs ! (i - 1)) = Some ds2"
  shows "loop_inv D fp stop ds2 (AddPoint h (cs ! (i - 1))) (cs ! (i - 1)) (step + 1) \<and>
         edges_clear (AddPoint h (cs ! (i - 1)))"
proof -
  define c where "c = cs ! (i - 1)"
  from inv have base: "h \<noteq> []" "hd h = fp" "last h = cur" "step = length h + 1" "distinct ds"
    "set h \<union> set ds = set D"
    by (auto simp: loop_inv_def)
  have open_phase: "distinct h \<and> set h \<inter> set ds \<subseteq> {fp} \<and> (fp \<in> set ds \<longrightarrow> stop < step)"
  proof -
    have "\<not> (2 \<le> length h \<and> cur = fp \<and> 2 < step)" using cond by auto
    with inv show ?thesis unfolding loop_inv_def by blast
  qed
  have fpD: "fp \<in> set h" using base by (metis hd_in_set)
  have d1: "distinct ds1" "set h \<inter> set ds1 \<subseteq> {fp}" "set h \<union> set ds1 = set D"
    "fp \<in> set ds1 \<longrightarrow> stop < step + 1"
    using base open_phase fpD by (auto simp: ds1 AddPoint_def)
  from candidate_loop_chosen[OF cl] have i: "0 < i" "i \<le> length cs" and
    chk: "\<forall>j. 2 \<le> j \<and> j < length h - (if c = fp then 1 else 0) \<longrightarrow>
       \<not> IntersectsQ (h ! (step - 2), c) (h ! (step - 2 - j), h ! (step - 1 - j))"
    by (auto simp: c_def)
  from i cs have cin: "c \<in> set ds1" by (auto simp: c_def)
  from RemovePoint_set[OF rp[folded c_def] d1(1)] have
    d2: "set ds2 = set ds1 - {c}" "distinct ds2" by auto
  have ec': "edges_clear (h @ [c])"
  proof (rule edges_clear_snoc[OF ec base(1)])
    show "distinct h" using open_phase by simp
    show "\<forall>j. 2 \<le> j \<and> j < length h - (if c = hd h then 1 else 0) \<longrightarrow>
       \<not> IntersectsQ (h ! (length h - 1), c) (h ! (length h - 1 - j), h ! (length h - j))"
      using chk base by simp
  qed
  have inv': "loop_inv D fp stop ds2 (h @ [c]) c (step + 1)"
  proof (cases "c = fp")
    case True
    have "set (h @ [c]) \<inter> set ds2 = {}" using d1 d2 True by auto
    moreover have "set (h @ [c]) \<union> set ds2 = set D" using d1 d2 cin True fpD by auto
    moreover have "2 \<le> length (h @ [c])" using base by (cases h) auto
    ultimately show ?thesis
      using base open_phase d2 True by (auto simp: loop_inv_def)
  next
    case False
    have "c \<notin> set h" using d1 cin False by auto
    moreover have "set (h @ [c]) \<inter> set ds2 \<subseteq> {fp}" using d1 d2 by auto
    moreover have "set (h @ [c]) \<union> set ds2 = set D" using d1 d2 cin by auto
    moreover have "fp \<in> set ds2 \<longrightarrow> stop < step + 1" using d1 d2 by auto
    ultimately show ?thesis
      using base open_phase d2 by (auto simp: loop_inv_def)
  qed
  from inv' ec' show ?thesis by (simp add: AddPoint_def c_def)
qed

lemma main_loop_inv:
  "main_loop fp kk stop ds h cur prev step = Closed h' ds' \<Longrightarrow>
   loop_inv D fp stop ds h cur step \<Longrightarrow> edges_clear h \<Longrightarrow>
   loop_inv D fp stop ds' h' (last h') (length h' + 1) \<and> edges_clear h' \<and>
   (ds' = [] \<or> (last h' = fp \<and> 2 \<le> length h'))"
proof (induction fp kk stop ds h cur prev step rule: main_loop.induct)
  case (1 fp kk stop ds h cur prev step)
  show ?case
  proof (cases "(\<not> pointEquals cur fp \<or> step = 2) \<and> 0 < length ds")
    case True
    let ?ds1 = "if step = stop then AddPoint ds fp else ds"
    let ?cs = "SortByAngle (NearestPoints ?ds1 cur kk) cur prev"
    obtain b i where cl: "candidate_loop fp h step ?cs True 0 = (b, i)" by fastforce
    have css: "set ?cs \<subseteq> set ?ds1" using set_NearestPoints by simp
    let ?c = "?cs ! (i - 1)"
    let ?h1 = "AddPoint h ?c"
    have unf: "main_loop fp kk stop ds h cur prev step =
      (if b = True then Intersecting
       else case RemovePoint ?ds1 ?c of
              None \<Rightarrow> NoDataset
            | Some ds2 \<Rightarrow>
                main_loop fp kk stop ds2 ?h1 ?c (Angle (?h1 ! (step - 2)) (?h1 ! (step - 1))) (step + 1))"
      by (subst main_loop.simps) (simp only: True cl Let_def if_True prod.case simp_thms)
    from "1.prems"(1) have nb: "b = False"
      unfolding unf by (cases b) simp_all
    from "1.prems"(1) obtain ds2 where
      rp: "RemovePoint ?ds1 ?c = Some ds2" and
      rec: "main_loop fp kk stop ds2 ?h1 ?c (Angle (?h1 ! (step - 2)) (?h1 ! (step - 1))) (step + 1)
              = Closed h' ds'"
      unfolding unf nb by (cases "RemovePoint ?ds1 ?c") simp_all
    have step: "loop_inv D fp stop ds2 ?h1 ?c (step + 1) \<and> edges_clear ?h1"
      by (rule loop_step[OF "1.prems"(2,3) _ refl css cl[unfolded nb] rp]) (use True in auto)
    have nb': "b \<noteq> True" using nb by simp
    show ?thesis
      by (rule "1.IH"[OF True refl refl refl refl cl[symmetric] nb' refl refl refl rp rec
            conjunct1[OF step] conjunct2[OF step]])
  next
    case False
    have "main_loop fp kk stop ds h cur prev step = Closed h ds"
      by (subst main_loop.simps) (simp only: False if_False)
    with "1.prems"(1) have eq: "h' = h" "ds' = ds" by simp_all
    from "1.prems"(2) have base: "last h = cur" "step = length h + 1" "h \<noteq> []"
      by (auto simp: loop_inv_def)
    have len: "1 \<le> length h" using base(3) by (simp add: Suc_leI)
    have "2 \<le> length h" if "step \<noteq> 2" using that base(2) len by linarith
    then have "ds = [] \<or> (last h = fp \<and> 2 \<le> length h)"
      using False base(1) by (cases "ds = []") auto
    with "1.prems" base show ?thesis by (simp add: eq)
  qed
qed

lemma allInside_loop_True:
  "allInside_loop ds h b i = True \<Longrightarrow>
   b = True \<and> (\<forall>n. 0 \<le> n \<and> n \<le> i \<longrightarrow> PointInPolygonQ (ds ! nat n) h)"
proof (induction ds h b i rule: allInside_loop.induct)
  case (1 ds h b i)
  show ?case
  proof (cases "b = True \<and> i \<ge> 0")
    case True
    with "1.prems" have r: "allInside_loop ds h (PointInPolygonQ (ds ! nat i) h) (i - 1) = True"
      by (subst (asm) allInside_loop.simps) simp
    from "1.IH"[OF True r] have a: "PointInPolygonQ (ds ! nat i) h"
      and b: "\<forall>n. 0 \<le> n \<and> n \<le> i - 1 \<longrightarrow> PointInPolygonQ (ds ! nat n) h" by auto
    have "PointInPolygonQ (ds ! nat n) h" if "0 \<le> n" "n \<le> i" for n
    proof (cases "n = i")
      case True with a show ?thesis by simp
    next
      case False with that b show ?thesis by auto
    qed
    with True show ?thesis by blast
  next
    case False
    with "1.prems" have "b = True" by (subst (asm) allInside_loop.simps) auto
    with False show ?thesis by auto
  qed
qed

lemma allInside_loop_all:
  assumes "allInside_loop ds h True (int (length ds) - 1) = True" and "p \<in> set ds"
  shows "PointInPolygonQ p h"
proof -
  from assms(2) obtain n where n: "n < length ds" "ds ! n = p" by (auto simp: in_set_conv_nth)
  from allInside_loop_True[OF assms(1), THEN conjunct2, rule_format, of "int n"] n(1)
  have "PointInPolygonQ (ds ! nat (int n)) h"
    by simp
  with n show ?thesis by simp
qed

lemma edges_clear_single: "edges_clear [p]"
  by (simp add: edges_clear_def)

text \<open>What a pass that finds a hull guarantees.\<close>

lemma calculate_pass_Found:
  assumes found: "calculate_pass D kk = Found h" and dist: "distinct D"
  shows "\<exists>fp ds. loop_inv D fp (2 + nat kk) ds h (last h) (length h + 1) \<and> edges_clear h \<and>
           (ds = [] \<or> (last h = fp \<and> 2 \<le> length h)) \<and>
           (\<forall>p\<in>set ds. PointInPolygonQ p h)"
proof -
  obtain i where i: "FindMinYPoint D = Some i"
    using found by (cases "FindMinYPoint D") (simp_all add: calculate_pass_def)
  let ?fp = "D ! i"
  obtain ds0 where ds0: "RemovePoint D ?fp = Some ds0"
    using found i by (cases "RemovePoint D ?fp") (simp_all add: calculate_pass_def Let_def)
  let ?ml = "main_loop ?fp kk (2 + nat kk) ds0 [?fp] ?fp pi 2"
  have unf: "calculate_pass D kk =
    (case ?ml of Intersecting \<Rightarrow> Retry | NoDataset \<Rightarrow> Failed
     | Closed hullv dataset \<Rightarrow>
         (let allInside = allInside_loop dataset hullv True (int (length dataset) - 1)
          in if allInside = False then Retry else Found hullv))"
    by (simp add: calculate_pass_def i ds0 Let_def AddPoint_def)
  obtain ds where
    ml: "?ml = Closed h ds" and
    ai: "allInside_loop ds h True (int (length ds) - 1) = True"
    using found unfolding unf by (cases ?ml) (simp_all add: Let_def split: if_splits)
  from RemovePoint_set[OF ds0 dist] have r: "set ds0 = set D - {?fp}" "distinct ds0" "?fp \<in> set D"
    by auto
  have u: "set [?fp] \<union> set ds0 = set D"
    by (simp add: r(1) insert_absorb[OF r(3)])
  have o: "?fp \<notin> set ds0" by (simp add: r(1))
  have inv0: "loop_inv D ?fp (2 + nat kk) ds0 [?fp] ?fp 2"
    unfolding loop_inv_def using u o r(2) by simp
  have hd0: "hd [?fp] = ?fp" by simp
  note m = main_loop_inv[OF ml inv0 edges_clear_single]
  have "loop_inv D ?fp (2 + nat kk) ds h (last h) (length h + 1) \<and> edges_clear h \<and>
           (ds = [] \<or> (last h = ?fp \<and> 2 \<le> length h)) \<and>
           (\<forall>p\<in>set ds. PointInPolygonQ p h)"
    using m allInside_loop_all[OF ai] by simp
  then show ?thesis by (intro exI)
qed

lemma calculate_unfold_general:
  assumes "\<not> max k 3 \<ge> int (length pointsList)" and "4 \<le> length (CleanList pointsList)"
  shows "calculate pointsList k =
    (case calculate_pass (CleanList pointsList) (min (max k 3) (int (length (CleanList pointsList)) - 1)) of
       Retry \<Rightarrow> calculate pointsList (min (max k 3) (int (length (CleanList pointsList)) - 1) + 1)
     | Failed \<Rightarrow> Some Thrown
     | Found hullv \<Rightarrow> Some (Hull hullv))"
  using assms by (subst calculate.simps) (simp add: Let_def)

lemma calculate_Hull_pass_aux:
  assumes "calculate pointsList k = Some r"
  shows "\<forall>h. r = Hull h \<longrightarrow> 4 \<le> length (CleanList pointsList) \<longrightarrow>
    (\<exists>kk. calculate_pass (CleanList pointsList) kk = Found h)"
proof (rule calculate.raw_induct[OF _ assms])
  fix calc :: "point list \<Rightarrow> int \<Rightarrow> result option" and pointsList k r
  assume IH: "\<And>pts k r. calc pts k = Some r \<Longrightarrow>
      \<forall>h. r = Hull h \<longrightarrow> 4 \<le> length (CleanList pts) \<longrightarrow>
        (\<exists>kk. calculate_pass (CleanList pts) kk = Found h)"
  let ?D = "CleanList pointsList"
  let ?kk = "min (max k 3) (int (length ?D) - 1)"
  assume step: "(let kk = max k 3
      in if int (length pointsList) \<le> kk then Some Null
         else let dataset = CleanList pointsList
              in if length dataset < 3 then Some Null
                 else if length dataset = 3 then Some (Hull dataset)
                      else let kk = min kk (int (length dataset) - 1)
                           in case calculate_pass dataset kk of
                              Retry \<Rightarrow> calc pointsList (kk + 1)
                              | Found hullv \<Rightarrow> Some (Hull hullv)
                              | Failed \<Rightarrow> Some Thrown) = Some r"
  show "\<forall>h. r = Hull h \<longrightarrow> 4 \<le> length ?D \<longrightarrow> (\<exists>kk. calculate_pass ?D kk = Found h)"
  proof (intro allI impI)
    fix h assume r: "r = Hull h" and n: "4 \<le> length ?D"
    from step r have guard: "\<not> int (length pointsList) \<le> max k 3"
      by (auto simp: Let_def split: if_splits)
    with step n have body:
      "(case calculate_pass ?D ?kk of
          Retry \<Rightarrow> calc pointsList (?kk + 1)
        | Found hullv \<Rightarrow> Some (Hull hullv)
        | Failed \<Rightarrow> Some Thrown) = Some r"
      by (simp add: Let_def)
    show "\<exists>kk. calculate_pass ?D kk = Found h"
    proof (cases "calculate_pass ?D ?kk")
      case Retry
      with body have "calc pointsList (?kk + 1) = Some r" by simp
      from IH[OF this] r n show ?thesis by blast
    next
      case (Found hv)
      with body r have "hv = h" by simp
      with Found show ?thesis by blast
    next
      case Failed
      with body r show ?thesis by simp
    qed
  qed
qed

lemma calculate_Hull_pass:
  "calculate pointsList k = Some (Hull h) \<Longrightarrow> 4 \<le> length (CleanList pointsList) \<Longrightarrow>
   \<exists>kk. calculate_pass (CleanList pointsList) kk = Found h"
  using calculate_Hull_pass_aux by blast

lemma hull_shape:
  assumes inv: "loop_inv D fp stop ds h (last h) (length h + 1)"
    and ex: "ds = [] \<or> (last h = fp \<and> 2 \<le> length h)"
  shows "h \<noteq> [] \<and> set h \<subseteq> set D \<and> distinct (butlast h) \<and>
         (last h = hd h \<or> (distinct h \<and> set h = set D))"
proof -
  from inv have base: "h \<noteq> []" "hd h = fp" "set h \<union> set ds = set D"
    by (simp_all add: loop_inv_def)
  from inv have ph: "(distinct h \<and> set h \<inter> set ds \<subseteq> {fp}) \<or> (last h = fp \<and> distinct (butlast h))"
    unfolding loop_inv_def by blast
  have sub: "set h \<subseteq> set D" using base(3) by blast
  have db: "distinct (butlast h)" using ph distinct_butlast by blast
  have "last h = hd h \<or> (distinct h \<and> set h = set D)"
  proof (cases "last h = fp")
    case True with base show ?thesis by simp
  next
    case False
    with ex have "ds = []" by simp
    with base(3) have "set h = set D" by simp
    moreover from False ph have "distinct h" by blast
    ultimately show ?thesis by simp
  qed
  with base sub db show ?thesis by simp
qed

lemma calculate_hull_facts:
  assumes "calculate pointsList k = Some (Hull h)" and "4 \<le> length (CleanList pointsList)"
  shows "\<exists>fp stop ds. loop_inv (CleanList pointsList) fp stop ds h (last h) (length h + 1) \<and>
           edges_clear h \<and> (ds = [] \<or> (last h = fp \<and> 2 \<le> length h)) \<and>
           (\<forall>p\<in>set ds. PointInPolygonQ p h)"
proof -
  from calculate_Hull_pass[OF assms] obtain kk where
    "calculate_pass (CleanList pointsList) kk = Found h" ..
  from calculate_pass_Found[OF this distinct_CleanList] show ?thesis by blast
qed

section \<open>Worked inputs\<close>

text \<open>Distances are compared through their squares.\<close>

lemma distance_less_iff:
  "distance a p < distance b p \<longleftrightarrow>
   (fst p - fst a)\<^sup>2 + (snd p - snd a)\<^sup>2 < (fst p - fst b)\<^sup>2 + (snd p - snd b)\<^sup>2"
  by (simp add: distance_def)

subsection \<open>A rectangle: four points, \<open>k = 3\<close>\<close>

text \<open>The input \<^verbatim>\<open>[[0,0],[0,3],[4,3],[4,0]]\<close> has neither equal distances nor equal angles in
  any sort. The seed is \<open>(0, 3)\<close>; the three passes through the main loop take \<open>(4, 3)\<close>,
  \<open>(4, 0)\<close> and \<open>(0, 0)\<close>; then the dataset is empty, before \<^verbatim>\<open>step\<close> reaches
  \<^verbatim>\<open>stop = 5\<close>.\<close>

lemma e1_arctan:
  "0 < arctan (3 / 4)"
  "arctan (3 / 4) < pi / 4"
  "pi / 4 < pi / 2"
  "2 \<le> pi"
  using arctan_less_iff[of "0" "3 / 4"]
    arctan_less_iff[of "3 / 4" "1"]
    arctan_one pi_ge_two
  by simp_all

lemma e1_k3_seed: "FindMinYPoint [(0, 0), (0, 3), (4, 3), (4, 0)] = Some 1"
  by (simp add: FindMinYPoint_def arrayColumn1_def)

lemma e1_k3_s2_near: "NearestPoints [(0, 0), (4, 3), (4, 0)] (0, 3) 3 = [(0, 0), (4, 3), (4, 0)]"
  by (simp add: NearestPoints_def array_sort_def distance_less_iff Let_def)

lemma e1_k3_s2_sort: "SortByAngle [(0, 0), (4, 3), (4, 0)] (0, 3) (pi) = [(4, 3), (4, 0), (0, 0)]"
  using e1_arctan
  by (simp add: SortByAngle_def array_sort_def Angle_def atan2_def Let_def arctan_minus arctan_one
       del: zero_less_arctan_iff arctan_less_zero_iff zero_le_arctan_iff arctan_le_zero_iff)

lemma e1_k3_s2_cand: "candidate_loop (0, 3) [(0, 3)] 2 [(4, 3), (4, 0), (0, 0)] True 0 = (False, 1)"
  by (simp add: candidate_loop.simps edge_loop.simps IntersectsQ_def getLineLineCollision_def Let_def)

lemma e1_k3_s2_angle: "Angle (0, 3) (4, 3) = pi"
  using e1_arctan
  by (simp add: Angle_def atan2_def Let_def arctan_minus arctan_one
       del: zero_less_arctan_iff arctan_less_zero_iff zero_le_arctan_iff arctan_le_zero_iff)

lemma e1_k3_s2_loop: "main_loop (0, 3) 3 5 [(0, 0), (4, 3), (4, 0)] [(0, 3)] (0, 3) (pi) 2 =
    main_loop (0, 3) 3 5 [(0, 0), (4, 0)] [(0, 3), (4, 3)] (4, 3) (pi) 3"
  by (subst main_loop.simps) (simp add: e1_k3_s2_near e1_k3_s2_sort e1_k3_s2_cand e1_k3_s2_angle AddPoint_def Let_def)

lemma e1_k3_s3_near: "NearestPoints [(0, 0), (4, 0)] (4, 3) 3 = [(4, 0), (0, 0)]"
  by (simp add: NearestPoints_def array_sort_def distance_less_iff Let_def)

lemma e1_k3_s3_sort: "SortByAngle [(4, 0), (0, 0)] (4, 3) (pi) = [(4, 0), (0, 0)]"
  using e1_arctan
  by (simp add: SortByAngle_def array_sort_def Angle_def atan2_def Let_def arctan_minus arctan_one
       del: zero_less_arctan_iff arctan_less_zero_iff zero_le_arctan_iff arctan_le_zero_iff)

lemma e1_k3_s3_cand: "candidate_loop (0, 3) [(0, 3), (4, 3)] 3 [(4, 0), (0, 0)] True 0 = (False, 1)"
  by (simp add: candidate_loop.simps edge_loop.simps IntersectsQ_def getLineLineCollision_def Let_def)

lemma e1_k3_s3_angle: "Angle (4, 3) (4, 0) = 3 * pi / 2"
  using e1_arctan
  by (simp add: Angle_def atan2_def Let_def arctan_minus arctan_one
       del: zero_less_arctan_iff arctan_less_zero_iff zero_le_arctan_iff arctan_le_zero_iff)

lemma e1_k3_s3_loop: "main_loop (0, 3) 3 5 [(0, 0), (4, 0)] [(0, 3), (4, 3)] (4, 3) (pi) 3 =
    main_loop (0, 3) 3 5 [(0, 0)] [(0, 3), (4, 3), (4, 0)] (4, 0) (3 * pi / 2) 4"
  by (subst main_loop.simps) (simp add: e1_k3_s3_near e1_k3_s3_sort e1_k3_s3_cand e1_k3_s3_angle AddPoint_def Let_def)

lemma e1_k3_s4_near: "NearestPoints [(0, 0)] (4, 0) 3 = [(0, 0)]"
  by (simp add: NearestPoints_def array_sort_def distance_less_iff Let_def)

lemma e1_k3_s4_sort: "SortByAngle [(0, 0)] (4, 0) (3 * pi / 2) = [(0, 0)]"
  using e1_arctan
  by (simp add: SortByAngle_def array_sort_def Angle_def atan2_def Let_def arctan_minus arctan_one
       del: zero_less_arctan_iff arctan_less_zero_iff zero_le_arctan_iff arctan_le_zero_iff)

lemma e1_k3_s4_cand: "candidate_loop (0, 3) [(0, 3), (4, 3), (4, 0)] 4 [(0, 0)] True 0 = (False, 1)"
  by (simp add: candidate_loop.simps edge_loop.simps IntersectsQ_def getLineLineCollision_def Let_def)

lemma e1_k3_s4_angle: "Angle (4, 0) (0, 0) = 0"
  using e1_arctan
  by (simp add: Angle_def atan2_def Let_def arctan_minus arctan_one
       del: zero_less_arctan_iff arctan_less_zero_iff zero_le_arctan_iff arctan_le_zero_iff)

lemma e1_k3_s4_loop: "main_loop (0, 3) 3 5 [(0, 0)] [(0, 3), (4, 3), (4, 0)] (4, 0) (3 * pi / 2) 4 =
    main_loop (0, 3) 3 5 [] [(0, 3), (4, 3), (4, 0), (0, 0)] (0, 0) (0) 5"
  by (subst main_loop.simps) (simp add: e1_k3_s4_near e1_k3_s4_sort e1_k3_s4_cand e1_k3_s4_angle AddPoint_def Let_def)

lemma e1_k3_exit: "main_loop (0, 3) 3 5 [] [(0, 3), (4, 3), (4, 0), (0, 0)] (0, 0) (0) 5 = Closed [(0, 3), (4, 3), (4, 0), (0, 0)] []"
  by (subst main_loop.simps) simp

lemma e1_k3_main: "main_loop (0, 3) 3 5 [(0, 0), (4, 3), (4, 0)] [(0, 3)] (0, 3) (pi) 2 = Closed [(0, 3), (4, 3), (4, 0), (0, 0)] []"
  by (simp only: e1_k3_s2_loop e1_k3_s3_loop e1_k3_s4_loop e1_k3_exit)

lemma e1_k3_inside: "allInside_loop [] [(0, 3), (4, 3), (4, 0), (0, 0)] True (-1) = True"
  by (simp add: allInside_loop.simps )

lemma e1_k3_pass: "calculate_pass [(0, 0), (0, 3), (4, 3), (4, 0)] 3 = Found [(0, 3), (4, 3), (4, 0), (0, 0)]"
  by (simp add: calculate_pass_def e1_k3_seed AddPoint_def Let_def e1_k3_main e1_k3_inside)

lemma e1_calculate:
  "calculate [(0, 0), (0, 3), (4, 3), (4, 0)] 3 = Some (Hull [(0, 3), (4, 3), (4, 0), (0, 0)])"
  by (subst calculate.simps) (simp add: CleanList_distinct_id e1_k3_pass)

subsection \<open>Seven points, \<open>k = 3\<close> and \<open>k = 4\<close>\<close>

text \<open>The input
  \<^verbatim>\<open>[[0,0],[-3,0],[4,0],[-3,-2],[-2,-1],[-1,-1],[0,-2]]\<close> has neither equal distances nor
  equal angles in any sort either. Three points have the largest second coordinate and the
  seed \<open>(0, 0)\<close>, the first of them in the input, lies between the other two. With \<open>k = 3\<close>
  the loop closes the hull \<open>(0,0), (0,-2), (-3,-2), (-3,0), (0,0)\<close> and the point
  \<open>(4, 0)\<close> left over is outside: a retry. With \<open>k = 4\<close> the hull is
  \<open>(0,0), (0,-2), (-3,-2), (-3,0), (4,0), (0,0)\<close>, and both points left over are
  inside.\<close>

lemma e7_arctan:
  "0 < arctan (1 / 6)"
  "arctan (1 / 6) < arctan (1 / 5)"
  "arctan (1 / 5) < arctan (2 / 7)"
  "arctan (2 / 7) < arctan (1 / 2)"
  "arctan (1 / 2) < arctan (2 / 3)"
  "arctan (2 / 3) < pi / 4"
  "pi / 4 < pi / 2"
  "2 \<le> pi"
  using arctan_less_iff[of "0" "1 / 6"]
    arctan_less_iff[of "1 / 6" "1 / 5"]
    arctan_less_iff[of "1 / 5" "2 / 7"]
    arctan_less_iff[of "2 / 7" "1 / 2"]
    arctan_less_iff[of "1 / 2" "2 / 3"]
    arctan_less_iff[of "2 / 3" "1"]
    arctan_one pi_ge_two
  by simp_all

lemma e7_k3_seed: "FindMinYPoint [(0, 0), (-3, 0), (4, 0), (-3, -2), (-2, -1), (-1, -1), (0, -2)] = Some 0"
  by (simp add: FindMinYPoint_def arrayColumn1_def)

lemma e7_k3_s2_near: "NearestPoints [(-3, 0), (4, 0), (-3, -2), (-2, -1), (-1, -1), (0, -2)] (0, 0) 3 = [(-1, -1), (0, -2), (-2, -1)]"
  by (simp add: NearestPoints_def array_sort_def distance_less_iff Let_def)

lemma e7_k3_s2_sort: "SortByAngle [(-1, -1), (0, -2), (-2, -1)] (0, 0) (pi) = [(0, -2), (-1, -1), (-2, -1)]"
  using e7_arctan
  by (simp add: SortByAngle_def array_sort_def Angle_def atan2_def Let_def arctan_minus arctan_one
       del: zero_less_arctan_iff arctan_less_zero_iff zero_le_arctan_iff arctan_le_zero_iff)

lemma e7_k3_s2_cand: "candidate_loop (0, 0) [(0, 0)] 2 [(0, -2), (-1, -1), (-2, -1)] True 0 = (False, 1)"
  by (simp add: candidate_loop.simps edge_loop.simps IntersectsQ_def getLineLineCollision_def Let_def)

lemma e7_k3_s2_angle: "Angle (0, 0) (0, -2) = 3 * pi / 2"
  using e7_arctan
  by (simp add: Angle_def atan2_def Let_def arctan_minus arctan_one
       del: zero_less_arctan_iff arctan_less_zero_iff zero_le_arctan_iff arctan_le_zero_iff)

lemma e7_k3_s2_loop: "main_loop (0, 0) 3 5 [(-3, 0), (4, 0), (-3, -2), (-2, -1), (-1, -1), (0, -2)] [(0, 0)] (0, 0) (pi) 2 =
    main_loop (0, 0) 3 5 [(-3, 0), (4, 0), (-3, -2), (-2, -1), (-1, -1)] [(0, 0), (0, -2)] (0, -2) (3 * pi / 2) 3"
  by (subst main_loop.simps) (simp add: e7_k3_s2_near e7_k3_s2_sort e7_k3_s2_cand e7_k3_s2_angle AddPoint_def Let_def)

lemma e7_k3_s3_near: "NearestPoints [(-3, 0), (4, 0), (-3, -2), (-2, -1), (-1, -1)] (0, -2) 3 = [(-1, -1), (-2, -1), (-3, -2)]"
  by (simp add: NearestPoints_def array_sort_def distance_less_iff Let_def)

lemma e7_k3_s3_sort: "SortByAngle [(-1, -1), (-2, -1), (-3, -2)] (0, -2) (3 * pi / 2) = [(-3, -2), (-2, -1), (-1, -1)]"
  using e7_arctan
  by (simp add: SortByAngle_def array_sort_def Angle_def atan2_def Let_def arctan_minus arctan_one
       del: zero_less_arctan_iff arctan_less_zero_iff zero_le_arctan_iff arctan_le_zero_iff)

lemma e7_k3_s3_cand: "candidate_loop (0, 0) [(0, 0), (0, -2)] 3 [(-3, -2), (-2, -1), (-1, -1)] True 0 = (False, 1)"
  by (simp add: candidate_loop.simps edge_loop.simps IntersectsQ_def getLineLineCollision_def Let_def)

lemma e7_k3_s3_angle: "Angle (0, -2) (-3, -2) = 0"
  using e7_arctan
  by (simp add: Angle_def atan2_def Let_def arctan_minus arctan_one
       del: zero_less_arctan_iff arctan_less_zero_iff zero_le_arctan_iff arctan_le_zero_iff)

lemma e7_k3_s3_loop: "main_loop (0, 0) 3 5 [(-3, 0), (4, 0), (-3, -2), (-2, -1), (-1, -1)] [(0, 0), (0, -2)] (0, -2) (3 * pi / 2) 3 =
    main_loop (0, 0) 3 5 [(-3, 0), (4, 0), (-2, -1), (-1, -1)] [(0, 0), (0, -2), (-3, -2)] (-3, -2) (0) 4"
  by (subst main_loop.simps) (simp add: e7_k3_s3_near e7_k3_s3_sort e7_k3_s3_cand e7_k3_s3_angle AddPoint_def Let_def)

lemma e7_k3_s4_near: "NearestPoints [(-3, 0), (4, 0), (-2, -1), (-1, -1)] (-3, -2) 3 = [(-2, -1), (-3, 0), (-1, -1)]"
  by (simp add: NearestPoints_def array_sort_def distance_less_iff Let_def)

lemma e7_k3_s4_sort: "SortByAngle [(-2, -1), (-3, 0), (-1, -1)] (-3, -2) (0) = [(-3, 0), (-2, -1), (-1, -1)]"
  using e7_arctan
  by (simp add: SortByAngle_def array_sort_def Angle_def atan2_def Let_def arctan_minus arctan_one
       del: zero_less_arctan_iff arctan_less_zero_iff zero_le_arctan_iff arctan_le_zero_iff)

lemma e7_k3_s4_cand: "candidate_loop (0, 0) [(0, 0), (0, -2), (-3, -2)] 4 [(-3, 0), (-2, -1), (-1, -1)] True 0 = (False, 1)"
  by (simp add: candidate_loop.simps edge_loop.simps IntersectsQ_def getLineLineCollision_def Let_def)

lemma e7_k3_s4_angle: "Angle (-3, -2) (-3, 0) = pi / 2"
  using e7_arctan
  by (simp add: Angle_def atan2_def Let_def arctan_minus arctan_one
       del: zero_less_arctan_iff arctan_less_zero_iff zero_le_arctan_iff arctan_le_zero_iff)

lemma e7_k3_s4_loop: "main_loop (0, 0) 3 5 [(-3, 0), (4, 0), (-2, -1), (-1, -1)] [(0, 0), (0, -2), (-3, -2)] (-3, -2) (0) 4 =
    main_loop (0, 0) 3 5 [(4, 0), (-2, -1), (-1, -1)] [(0, 0), (0, -2), (-3, -2), (-3, 0)] (-3, 0) (pi / 2) 5"
  by (subst main_loop.simps) (simp add: e7_k3_s4_near e7_k3_s4_sort e7_k3_s4_cand e7_k3_s4_angle AddPoint_def Let_def)

lemma e7_k3_s5_near: "NearestPoints [(4, 0), (-2, -1), (-1, -1), (0, 0)] (-3, 0) 3 = [(-2, -1), (-1, -1), (0, 0)]"
  by (simp add: NearestPoints_def array_sort_def distance_less_iff Let_def)

lemma e7_k3_s5_sort: "SortByAngle [(-2, -1), (-1, -1), (0, 0)] (-3, 0) (pi / 2) = [(0, 0), (-1, -1), (-2, -1)]"
  using e7_arctan
  by (simp add: SortByAngle_def array_sort_def Angle_def atan2_def Let_def arctan_minus arctan_one
       del: zero_less_arctan_iff arctan_less_zero_iff zero_le_arctan_iff arctan_le_zero_iff)

lemma e7_k3_s5_cand: "candidate_loop (0, 0) [(0, 0), (0, -2), (-3, -2), (-3, 0)] 5 [(0, 0), (-1, -1), (-2, -1)] True 0 = (False, 1)"
  by (simp add: candidate_loop.simps edge_loop.simps IntersectsQ_def getLineLineCollision_def Let_def)

lemma e7_k3_s5_angle: "Angle (-3, 0) (0, 0) = pi"
  using e7_arctan
  by (simp add: Angle_def atan2_def Let_def arctan_minus arctan_one
       del: zero_less_arctan_iff arctan_less_zero_iff zero_le_arctan_iff arctan_le_zero_iff)

lemma e7_k3_s5_loop: "main_loop (0, 0) 3 5 [(4, 0), (-2, -1), (-1, -1)] [(0, 0), (0, -2), (-3, -2), (-3, 0)] (-3, 0) (pi / 2) 5 =
    main_loop (0, 0) 3 5 [(4, 0), (-2, -1), (-1, -1)] [(0, 0), (0, -2), (-3, -2), (-3, 0), (0, 0)] (0, 0) (pi) 6"
  by (subst main_loop.simps) (simp add: e7_k3_s5_near e7_k3_s5_sort e7_k3_s5_cand e7_k3_s5_angle AddPoint_def Let_def)

lemma e7_k3_exit: "main_loop (0, 0) 3 5 [(4, 0), (-2, -1), (-1, -1)] [(0, 0), (0, -2), (-3, -2), (-3, 0), (0, 0)] (0, 0) (pi) 6 = Closed [(0, 0), (0, -2), (-3, -2), (-3, 0), (0, 0)] [(4, 0), (-2, -1), (-1, -1)]"
  by (subst main_loop.simps) simp

lemma e7_k3_main: "main_loop (0, 0) 3 5 [(-3, 0), (4, 0), (-3, -2), (-2, -1), (-1, -1), (0, -2)] [(0, 0)] (0, 0) (pi) 2 = Closed [(0, 0), (0, -2), (-3, -2), (-3, 0), (0, 0)] [(4, 0), (-2, -1), (-1, -1)]"
  by (simp only: e7_k3_s2_loop e7_k3_s3_loop e7_k3_s4_loop e7_k3_s5_loop e7_k3_exit)

lemma e7_k3_pip_2: "PointInPolygonQ (-1, -1) [(0, 0), (0, -2), (-3, -2), (-3, 0), (0, 0)] = True"
  by (simp add: PointInPolygonQ_def pointInPolygonNested_def pointInPolygonNested_loop.simps)

lemma e7_k3_pip_1: "PointInPolygonQ (-2, -1) [(0, 0), (0, -2), (-3, -2), (-3, 0), (0, 0)] = True"
  by (simp add: PointInPolygonQ_def pointInPolygonNested_def pointInPolygonNested_loop.simps)

lemma e7_k3_pip_0: "PointInPolygonQ (4, 0) [(0, 0), (0, -2), (-3, -2), (-3, 0), (0, 0)] = False"
  by (simp add: PointInPolygonQ_def pointInPolygonNested_def pointInPolygonNested_loop.simps)

lemma e7_k3_inside: "allInside_loop [(4, 0), (-2, -1), (-1, -1)] [(0, 0), (0, -2), (-3, -2), (-3, 0), (0, 0)] True (2) = False"
  by (simp add: allInside_loop.simps e7_k3_pip_2 e7_k3_pip_1 e7_k3_pip_0)

lemma e7_k3_pass: "calculate_pass [(0, 0), (-3, 0), (4, 0), (-3, -2), (-2, -1), (-1, -1), (0, -2)] 3 = Retry"
  by (simp add: calculate_pass_def e7_k3_seed AddPoint_def Let_def e7_k3_main e7_k3_inside)

lemma e7_k4_seed: "FindMinYPoint [(0, 0), (-3, 0), (4, 0), (-3, -2), (-2, -1), (-1, -1), (0, -2)] = Some 0"
  by (simp add: FindMinYPoint_def arrayColumn1_def)

lemma e7_k4_s2_near: "NearestPoints [(-3, 0), (4, 0), (-3, -2), (-2, -1), (-1, -1), (0, -2)] (0, 0) 4 = [(-1, -1), (0, -2), (-2, -1), (-3, 0)]"
  by (simp add: NearestPoints_def array_sort_def distance_less_iff Let_def)

lemma e7_k4_s2_sort: "SortByAngle [(-1, -1), (0, -2), (-2, -1), (-3, 0)] (0, 0) (pi) = [(0, -2), (-1, -1), (-2, -1), (-3, 0)]"
  using e7_arctan
  by (simp add: SortByAngle_def array_sort_def Angle_def atan2_def Let_def arctan_minus arctan_one
       del: zero_less_arctan_iff arctan_less_zero_iff zero_le_arctan_iff arctan_le_zero_iff)

lemma e7_k4_s2_cand: "candidate_loop (0, 0) [(0, 0)] 2 [(0, -2), (-1, -1), (-2, -1), (-3, 0)] True 0 = (False, 1)"
  by (simp add: candidate_loop.simps edge_loop.simps IntersectsQ_def getLineLineCollision_def Let_def)

lemma e7_k4_s2_angle: "Angle (0, 0) (0, -2) = 3 * pi / 2"
  using e7_arctan
  by (simp add: Angle_def atan2_def Let_def arctan_minus arctan_one
       del: zero_less_arctan_iff arctan_less_zero_iff zero_le_arctan_iff arctan_le_zero_iff)

lemma e7_k4_s2_loop: "main_loop (0, 0) 4 6 [(-3, 0), (4, 0), (-3, -2), (-2, -1), (-1, -1), (0, -2)] [(0, 0)] (0, 0) (pi) 2 =
    main_loop (0, 0) 4 6 [(-3, 0), (4, 0), (-3, -2), (-2, -1), (-1, -1)] [(0, 0), (0, -2)] (0, -2) (3 * pi / 2) 3"
  by (subst main_loop.simps) (simp add: e7_k4_s2_near e7_k4_s2_sort e7_k4_s2_cand e7_k4_s2_angle AddPoint_def Let_def)

lemma e7_k4_s3_near: "NearestPoints [(-3, 0), (4, 0), (-3, -2), (-2, -1), (-1, -1)] (0, -2) 4 = [(-1, -1), (-2, -1), (-3, -2), (-3, 0)]"
  by (simp add: NearestPoints_def array_sort_def distance_less_iff Let_def)

lemma e7_k4_s3_sort: "SortByAngle [(-1, -1), (-2, -1), (-3, -2), (-3, 0)] (0, -2) (3 * pi / 2) = [(-3, -2), (-2, -1), (-3, 0), (-1, -1)]"
  using e7_arctan
  by (simp add: SortByAngle_def array_sort_def Angle_def atan2_def Let_def arctan_minus arctan_one
       del: zero_less_arctan_iff arctan_less_zero_iff zero_le_arctan_iff arctan_le_zero_iff)

lemma e7_k4_s3_cand: "candidate_loop (0, 0) [(0, 0), (0, -2)] 3 [(-3, -2), (-2, -1), (-3, 0), (-1, -1)] True 0 = (False, 1)"
  by (simp add: candidate_loop.simps edge_loop.simps IntersectsQ_def getLineLineCollision_def Let_def)

lemma e7_k4_s3_angle: "Angle (0, -2) (-3, -2) = 0"
  using e7_arctan
  by (simp add: Angle_def atan2_def Let_def arctan_minus arctan_one
       del: zero_less_arctan_iff arctan_less_zero_iff zero_le_arctan_iff arctan_le_zero_iff)

lemma e7_k4_s3_loop: "main_loop (0, 0) 4 6 [(-3, 0), (4, 0), (-3, -2), (-2, -1), (-1, -1)] [(0, 0), (0, -2)] (0, -2) (3 * pi / 2) 3 =
    main_loop (0, 0) 4 6 [(-3, 0), (4, 0), (-2, -1), (-1, -1)] [(0, 0), (0, -2), (-3, -2)] (-3, -2) (0) 4"
  by (subst main_loop.simps) (simp add: e7_k4_s3_near e7_k4_s3_sort e7_k4_s3_cand e7_k4_s3_angle AddPoint_def Let_def)

lemma e7_k4_s4_near: "NearestPoints [(-3, 0), (4, 0), (-2, -1), (-1, -1)] (-3, -2) 4 = [(-2, -1), (-3, 0), (-1, -1), (4, 0)]"
  by (simp add: NearestPoints_def array_sort_def distance_less_iff Let_def)

lemma e7_k4_s4_sort: "SortByAngle [(-2, -1), (-3, 0), (-1, -1), (4, 0)] (-3, -2) (0) = [(-3, 0), (-2, -1), (-1, -1), (4, 0)]"
  using e7_arctan
  by (simp add: SortByAngle_def array_sort_def Angle_def atan2_def Let_def arctan_minus arctan_one
       del: zero_less_arctan_iff arctan_less_zero_iff zero_le_arctan_iff arctan_le_zero_iff)

lemma e7_k4_s4_cand: "candidate_loop (0, 0) [(0, 0), (0, -2), (-3, -2)] 4 [(-3, 0), (-2, -1), (-1, -1), (4, 0)] True 0 = (False, 1)"
  by (simp add: candidate_loop.simps edge_loop.simps IntersectsQ_def getLineLineCollision_def Let_def)

lemma e7_k4_s4_angle: "Angle (-3, -2) (-3, 0) = pi / 2"
  using e7_arctan
  by (simp add: Angle_def atan2_def Let_def arctan_minus arctan_one
       del: zero_less_arctan_iff arctan_less_zero_iff zero_le_arctan_iff arctan_le_zero_iff)

lemma e7_k4_s4_loop: "main_loop (0, 0) 4 6 [(-3, 0), (4, 0), (-2, -1), (-1, -1)] [(0, 0), (0, -2), (-3, -2)] (-3, -2) (0) 4 =
    main_loop (0, 0) 4 6 [(4, 0), (-2, -1), (-1, -1)] [(0, 0), (0, -2), (-3, -2), (-3, 0)] (-3, 0) (pi / 2) 5"
  by (subst main_loop.simps) (simp add: e7_k4_s4_near e7_k4_s4_sort e7_k4_s4_cand e7_k4_s4_angle AddPoint_def Let_def)

lemma e7_k4_s5_near: "NearestPoints [(4, 0), (-2, -1), (-1, -1)] (-3, 0) 4 = [(-2, -1), (-1, -1), (4, 0)]"
  by (simp add: NearestPoints_def array_sort_def distance_less_iff Let_def)

lemma e7_k4_s5_sort: "SortByAngle [(-2, -1), (-1, -1), (4, 0)] (-3, 0) (pi / 2) = [(4, 0), (-1, -1), (-2, -1)]"
  using e7_arctan
  by (simp add: SortByAngle_def array_sort_def Angle_def atan2_def Let_def arctan_minus arctan_one
       del: zero_less_arctan_iff arctan_less_zero_iff zero_le_arctan_iff arctan_le_zero_iff)

lemma e7_k4_s5_cand: "candidate_loop (0, 0) [(0, 0), (0, -2), (-3, -2), (-3, 0)] 5 [(4, 0), (-1, -1), (-2, -1)] True 0 = (False, 1)"
  by (simp add: candidate_loop.simps edge_loop.simps IntersectsQ_def getLineLineCollision_def Let_def)

lemma e7_k4_s5_angle: "Angle (-3, 0) (4, 0) = pi"
  using e7_arctan
  by (simp add: Angle_def atan2_def Let_def arctan_minus arctan_one
       del: zero_less_arctan_iff arctan_less_zero_iff zero_le_arctan_iff arctan_le_zero_iff)

lemma e7_k4_s5_loop: "main_loop (0, 0) 4 6 [(4, 0), (-2, -1), (-1, -1)] [(0, 0), (0, -2), (-3, -2), (-3, 0)] (-3, 0) (pi / 2) 5 =
    main_loop (0, 0) 4 6 [(-2, -1), (-1, -1)] [(0, 0), (0, -2), (-3, -2), (-3, 0), (4, 0)] (4, 0) (pi) 6"
  by (subst main_loop.simps) (simp add: e7_k4_s5_near e7_k4_s5_sort e7_k4_s5_cand e7_k4_s5_angle AddPoint_def Let_def)

lemma e7_k4_s6_near: "NearestPoints [(-2, -1), (-1, -1), (0, 0)] (4, 0) 4 = [(0, 0), (-1, -1), (-2, -1)]"
  by (simp add: NearestPoints_def array_sort_def distance_less_iff Let_def)

lemma e7_k4_s6_sort: "SortByAngle [(0, 0), (-1, -1), (-2, -1)] (4, 0) (pi) = [(-1, -1), (-2, -1), (0, 0)]"
  using e7_arctan
  by (simp add: SortByAngle_def array_sort_def Angle_def atan2_def Let_def arctan_minus arctan_one
       del: zero_less_arctan_iff arctan_less_zero_iff zero_le_arctan_iff arctan_le_zero_iff)

lemma e7_k4_s6_cand: "candidate_loop (0, 0) [(0, 0), (0, -2), (-3, -2), (-3, 0), (4, 0)] 6 [(-1, -1), (-2, -1), (0, 0)] True 0 = (False, 3)"
  by (simp add: candidate_loop.simps edge_loop.simps IntersectsQ_def getLineLineCollision_def Let_def)

lemma e7_k4_s6_angle: "Angle (4, 0) (0, 0) = 0"
  using e7_arctan
  by (simp add: Angle_def atan2_def Let_def arctan_minus arctan_one
       del: zero_less_arctan_iff arctan_less_zero_iff zero_le_arctan_iff arctan_le_zero_iff)

lemma e7_k4_s6_loop: "main_loop (0, 0) 4 6 [(-2, -1), (-1, -1)] [(0, 0), (0, -2), (-3, -2), (-3, 0), (4, 0)] (4, 0) (pi) 6 =
    main_loop (0, 0) 4 6 [(-2, -1), (-1, -1)] [(0, 0), (0, -2), (-3, -2), (-3, 0), (4, 0), (0, 0)] (0, 0) (0) 7"
  by (subst main_loop.simps) (simp add: e7_k4_s6_near e7_k4_s6_sort e7_k4_s6_cand e7_k4_s6_angle AddPoint_def Let_def)

lemma e7_k4_exit: "main_loop (0, 0) 4 6 [(-2, -1), (-1, -1)] [(0, 0), (0, -2), (-3, -2), (-3, 0), (4, 0), (0, 0)] (0, 0) (0) 7 = Closed [(0, 0), (0, -2), (-3, -2), (-3, 0), (4, 0), (0, 0)] [(-2, -1), (-1, -1)]"
  by (subst main_loop.simps) simp

lemma e7_k4_main: "main_loop (0, 0) 4 6 [(-3, 0), (4, 0), (-3, -2), (-2, -1), (-1, -1), (0, -2)] [(0, 0)] (0, 0) (pi) 2 = Closed [(0, 0), (0, -2), (-3, -2), (-3, 0), (4, 0), (0, 0)] [(-2, -1), (-1, -1)]"
  by (simp only: e7_k4_s2_loop e7_k4_s3_loop e7_k4_s4_loop e7_k4_s5_loop e7_k4_s6_loop e7_k4_exit)

lemma e7_k4_pip_1: "PointInPolygonQ (-1, -1) [(0, 0), (0, -2), (-3, -2), (-3, 0), (4, 0), (0, 0)] = True"
  by (simp add: PointInPolygonQ_def pointInPolygonNested_def pointInPolygonNested_loop.simps)

lemma e7_k4_pip_0: "PointInPolygonQ (-2, -1) [(0, 0), (0, -2), (-3, -2), (-3, 0), (4, 0), (0, 0)] = True"
  by (simp add: PointInPolygonQ_def pointInPolygonNested_def pointInPolygonNested_loop.simps)

lemma e7_k4_inside: "allInside_loop [(-2, -1), (-1, -1)] [(0, 0), (0, -2), (-3, -2), (-3, 0), (4, 0), (0, 0)] True (1) = True"
  by (simp add: allInside_loop.simps e7_k4_pip_1 e7_k4_pip_0)

lemma e7_k4_pass: "calculate_pass [(0, 0), (-3, 0), (4, 0), (-3, -2), (-2, -1), (-1, -1), (0, -2)] 4 = Found [(0, 0), (0, -2), (-3, -2), (-3, 0), (4, 0), (0, 0)]"
  by (simp add: calculate_pass_def e7_k4_seed AddPoint_def Let_def e7_k4_main e7_k4_inside)

lemma e7_CleanList:
  "CleanList [(0, 0), (-3, 0), (4, 0), (-3, -2), (-2, -1), (-1, -1), (0, -2)] =
     [(0, 0), (-3, 0), (4, 0), (-3, -2), (-2, -1), (-1, -1), (0, -2)]"
  by (simp add: CleanList_distinct_id)

lemma e7_calculate_4:
  "calculate [(0, 0), (-3, 0), (4, 0), (-3, -2), (-2, -1), (-1, -1), (0, -2)] 4 =
     Some (Hull [(0, 0), (0, -2), (-3, -2), (-3, 0), (4, 0), (0, 0)])"
  by (subst calculate.simps) (simp add: e7_CleanList e7_k4_pass)

lemma e7_calculate_3:
  "calculate [(0, 0), (-3, 0), (4, 0), (-3, -2), (-2, -1), (-1, -1), (0, -2)] 3 =
     Some (Hull [(0, 0), (0, -2), (-3, -2), (-3, 0), (4, 0), (0, 0)])"
  by (subst calculate.simps) (simp add: e7_CleanList e7_k3_pass e7_calculate_4)

subsection \<open>Five points, \<open>k = 4\<close>\<close>

text \<open>The input \<^verbatim>\<open>[[-5,-3],[-2,0],[-5,3],[-2,1],[1,0]]\<close> has neither equal distances nor
  equal angles in any sort. With \<open>k = 4\<close> every point left is a candidate at every step;
  the hull runs \<open>(-5,3), (1,0), (-5,-3), (-2,1), (-2,0)\<close>, and the dataset is empty before
  \<^verbatim>\<open>step\<close> reaches \<^verbatim>\<open>stop = 6\<close>, so the seed is not put back.\<close>

lemma p5_arctan:
  "0 < arctan (1 / 3)"
  "arctan (1 / 3) < arctan (1 / 2)"
  "arctan (1 / 2) < arctan (2 / 3)"
  "arctan (2 / 3) < pi / 4"
  "pi / 4 < arctan (4 / 3)"
  "arctan (4 / 3) < pi / 2"
  "2 \<le> pi"
  using arctan_less_iff[of "0" "1 / 3"]
    arctan_less_iff[of "1 / 3" "1 / 2"]
    arctan_less_iff[of "1 / 2" "2 / 3"]
    arctan_less_iff[of "2 / 3" "1"]
    arctan_less_iff[of "1" "4 / 3"]
    arctan_ubound[of "4 / 3"]
    arctan_one pi_ge_two
  by simp_all

lemma p5_k4_seed: "FindMinYPoint [(-5, -3), (-2, 0), (-5, 3), (-2, 1), (1, 0)] = Some 2"
  by (simp add: FindMinYPoint_def arrayColumn1_def)

lemma p5_k4_s2_near: "NearestPoints [(-5, -3), (-2, 0), (-2, 1), (1, 0)] (-5, 3) 4 = [(-2, 1), (-2, 0), (-5, -3), (1, 0)]"
  by (simp add: NearestPoints_def array_sort_def distance_less_iff Let_def)

lemma p5_k4_s2_sort: "SortByAngle [(-2, 1), (-2, 0), (-5, -3), (1, 0)] (-5, 3) (pi) = [(1, 0), (-2, 1), (-2, 0), (-5, -3)]"
  using p5_arctan
  by (simp add: SortByAngle_def array_sort_def Angle_def atan2_def Let_def arctan_minus arctan_one
       del: zero_less_arctan_iff arctan_less_zero_iff zero_le_arctan_iff arctan_le_zero_iff)

lemma p5_k4_s2_cand: "candidate_loop (-5, 3) [(-5, 3)] 2 [(1, 0), (-2, 1), (-2, 0), (-5, -3)] True 0 = (False, 1)"
  by (simp add: candidate_loop.simps edge_loop.simps IntersectsQ_def getLineLineCollision_def Let_def)

lemma p5_k4_s2_angle: "Angle (-5, 3) (1, 0) = pi + arctan (1 / 2)"
  using p5_arctan
  by (simp add: Angle_def atan2_def Let_def arctan_minus arctan_one
       del: zero_less_arctan_iff arctan_less_zero_iff zero_le_arctan_iff arctan_le_zero_iff)

lemma p5_k4_s2_loop: "main_loop (-5, 3) 4 6 [(-5, -3), (-2, 0), (-2, 1), (1, 0)] [(-5, 3)] (-5, 3) (pi) 2 =
    main_loop (-5, 3) 4 6 [(-5, -3), (-2, 0), (-2, 1)] [(-5, 3), (1, 0)] (1, 0) (pi + arctan (1 / 2)) 3"
  by (subst main_loop.simps) (simp add: p5_k4_s2_near p5_k4_s2_sort p5_k4_s2_cand p5_k4_s2_angle AddPoint_def Let_def)

lemma p5_k4_s3_near: "NearestPoints [(-5, -3), (-2, 0), (-2, 1)] (1, 0) 4 = [(-2, 0), (-2, 1), (-5, -3)]"
  by (simp add: NearestPoints_def array_sort_def distance_less_iff Let_def)

lemma p5_k4_s3_sort: "SortByAngle [(-2, 0), (-2, 1), (-5, -3)] (1, 0) (pi + arctan (1 / 2)) = [(-5, -3), (-2, 0), (-2, 1)]"
  using p5_arctan
  by (simp add: SortByAngle_def array_sort_def Angle_def atan2_def Let_def arctan_minus arctan_one
       del: zero_less_arctan_iff arctan_less_zero_iff zero_le_arctan_iff arctan_le_zero_iff)

lemma p5_k4_s3_cand: "candidate_loop (-5, 3) [(-5, 3), (1, 0)] 3 [(-5, -3), (-2, 0), (-2, 1)] True 0 = (False, 1)"
  by (simp add: candidate_loop.simps edge_loop.simps IntersectsQ_def getLineLineCollision_def Let_def)

lemma p5_k4_s3_angle: "Angle (1, 0) (-5, -3) = 2 * pi - arctan (1 / 2)"
  using p5_arctan
  by (simp add: Angle_def atan2_def Let_def arctan_minus arctan_one
       del: zero_less_arctan_iff arctan_less_zero_iff zero_le_arctan_iff arctan_le_zero_iff)

lemma p5_k4_s3_loop: "main_loop (-5, 3) 4 6 [(-5, -3), (-2, 0), (-2, 1)] [(-5, 3), (1, 0)] (1, 0) (pi + arctan (1 / 2)) 3 =
    main_loop (-5, 3) 4 6 [(-2, 0), (-2, 1)] [(-5, 3), (1, 0), (-5, -3)] (-5, -3) (2 * pi - arctan (1 / 2)) 4"
  by (subst main_loop.simps) (simp add: p5_k4_s3_near p5_k4_s3_sort p5_k4_s3_cand p5_k4_s3_angle AddPoint_def Let_def)

lemma p5_k4_s4_near: "NearestPoints [(-2, 0), (-2, 1)] (-5, -3) 4 = [(-2, 0), (-2, 1)]"
  by (simp add: NearestPoints_def array_sort_def distance_less_iff Let_def)

lemma p5_k4_s4_sort: "SortByAngle [(-2, 0), (-2, 1)] (-5, -3) (2 * pi - arctan (1 / 2)) = [(-2, 1), (-2, 0)]"
  using p5_arctan
  by (simp add: SortByAngle_def array_sort_def Angle_def atan2_def Let_def arctan_minus arctan_one
       del: zero_less_arctan_iff arctan_less_zero_iff zero_le_arctan_iff arctan_le_zero_iff)

lemma p5_k4_s4_cand: "candidate_loop (-5, 3) [(-5, 3), (1, 0), (-5, -3)] 4 [(-2, 1), (-2, 0)] True 0 = (False, 1)"
  by (simp add: candidate_loop.simps edge_loop.simps IntersectsQ_def getLineLineCollision_def Let_def)

lemma p5_k4_s4_angle: "Angle (-5, -3) (-2, 1) = pi - arctan (4 / 3)"
  using p5_arctan
  by (simp add: Angle_def atan2_def Let_def arctan_minus arctan_one
       del: zero_less_arctan_iff arctan_less_zero_iff zero_le_arctan_iff arctan_le_zero_iff)

lemma p5_k4_s4_loop: "main_loop (-5, 3) 4 6 [(-2, 0), (-2, 1)] [(-5, 3), (1, 0), (-5, -3)] (-5, -3) (2 * pi - arctan (1 / 2)) 4 =
    main_loop (-5, 3) 4 6 [(-2, 0)] [(-5, 3), (1, 0), (-5, -3), (-2, 1)] (-2, 1) (pi - arctan (4 / 3)) 5"
  by (subst main_loop.simps) (simp add: p5_k4_s4_near p5_k4_s4_sort p5_k4_s4_cand p5_k4_s4_angle AddPoint_def Let_def)

lemma p5_k4_s5_near: "NearestPoints [(-2, 0)] (-2, 1) 4 = [(-2, 0)]"
  by (simp add: NearestPoints_def array_sort_def distance_less_iff Let_def)

lemma p5_k4_s5_sort: "SortByAngle [(-2, 0)] (-2, 1) (pi - arctan (4 / 3)) = [(-2, 0)]"
  using p5_arctan
  by (simp add: SortByAngle_def array_sort_def Angle_def atan2_def Let_def arctan_minus arctan_one
       del: zero_less_arctan_iff arctan_less_zero_iff zero_le_arctan_iff arctan_le_zero_iff)

lemma p5_k4_s5_cand: "candidate_loop (-5, 3) [(-5, 3), (1, 0), (-5, -3), (-2, 1)] 5 [(-2, 0)] True 0 = (False, 1)"
  by (simp add: candidate_loop.simps edge_loop.simps IntersectsQ_def getLineLineCollision_def Let_def)

lemma p5_k4_s5_angle: "Angle (-2, 1) (-2, 0) = 3 * pi / 2"
  using p5_arctan
  by (simp add: Angle_def atan2_def Let_def arctan_minus arctan_one
       del: zero_less_arctan_iff arctan_less_zero_iff zero_le_arctan_iff arctan_le_zero_iff)

lemma p5_k4_s5_loop: "main_loop (-5, 3) 4 6 [(-2, 0)] [(-5, 3), (1, 0), (-5, -3), (-2, 1)] (-2, 1) (pi - arctan (4 / 3)) 5 =
    main_loop (-5, 3) 4 6 [] [(-5, 3), (1, 0), (-5, -3), (-2, 1), (-2, 0)] (-2, 0) (3 * pi / 2) 6"
  by (subst main_loop.simps) (simp add: p5_k4_s5_near p5_k4_s5_sort p5_k4_s5_cand p5_k4_s5_angle AddPoint_def Let_def)

lemma p5_k4_exit: "main_loop (-5, 3) 4 6 [] [(-5, 3), (1, 0), (-5, -3), (-2, 1), (-2, 0)] (-2, 0) (3 * pi / 2) 6 = Closed [(-5, 3), (1, 0), (-5, -3), (-2, 1), (-2, 0)] []"
  by (subst main_loop.simps) simp

lemma p5_k4_main: "main_loop (-5, 3) 4 6 [(-5, -3), (-2, 0), (-2, 1), (1, 0)] [(-5, 3)] (-5, 3) (pi) 2 = Closed [(-5, 3), (1, 0), (-5, -3), (-2, 1), (-2, 0)] []"
  by (simp only: p5_k4_s2_loop p5_k4_s3_loop p5_k4_s4_loop p5_k4_s5_loop p5_k4_exit)

lemma p5_k4_inside: "allInside_loop [] [(-5, 3), (1, 0), (-5, -3), (-2, 1), (-2, 0)] True (-1) = True"
  by (simp add: allInside_loop.simps )

lemma p5_k4_pass: "calculate_pass [(-5, -3), (-2, 0), (-5, 3), (-2, 1), (1, 0)] 4 = Found [(-5, 3), (1, 0), (-5, -3), (-2, 1), (-2, 0)]"
  by (simp add: calculate_pass_def p5_k4_seed AddPoint_def Let_def p5_k4_main p5_k4_inside)

lemma p5_calculate:
  "calculate [(-5, -3), (-2, 0), (-5, 3), (-2, 1), (1, 0)] 4 =
     Some (Hull [(-5, 3), (1, 0), (-5, -3), (-2, 1), (-2, 0)])"
  by (subst calculate.simps) (simp add: CleanList_distinct_id p5_k4_pass)

section \<open>Claims about \<^verbatim>\<open>calculate\<close>\<close>

subsection \<open>The guard on the neighbour count\<close>

text \<open>
  C2 (as amended). The guard of line 39 compares the clamped neighbour count with the length
  of the input list as given, before duplicates are removed: when \<open>max k 3\<close> is at least
  that length, \<^verbatim>\<open>calculate\<close> returns \<^verbatim>\<open>null\<close> at once, with no hull computation. A retry is a
  call of \<^verbatim>\<open>calculate\<close>, so the same holds there.
\<close>

theorem calculate_guard_raw_length:
  "max k 3 \<ge> int (length pointsList) \<Longrightarrow> calculate pointsList k = Some Null"
  by (subst calculate.simps) simp

text \<open>C2, an instance: four points and \<open>k = 5\<close>.\<close>

theorem calculate_guard_raw_length_witness:
  "max 5 3 \<ge> int (length [(0, 0), (0, 3), (4, 3), (4, 0)]) \<and>
   calculate [(0, 0), (0, 3), (4, 3), (4, 0)] 5 = Some Null"
  using calculate_guard_raw_length [of "[(0, 0), (0, 3), (4, 3), (4, 0)]" 5] by simp

text \<open>
  C2 as stated fails: the list \<^verbatim>\<open>[[0,0],[1,0],[0,1],[0,1]]\<close> has three distinct points, the
  clamped neighbour count \<open>3\<close> is not below that number, and \<^verbatim>\<open>calculate\<close> returns the three
  points instead of \<^verbatim>\<open>null\<close>: the guard sees four entries.
\<close>

theorem calculate_guard_distinct_counterexample:
  "max 3 3 \<ge> int (length (CleanList [(0, 0), (1, 0), (0, 1), (0, 1)])) \<and>
   calculate [(0, 0), (1, 0), (0, 1), (0, 1)] 3 = Some (Hull [(0, 0), (1, 0), (0, 1)])"
proof -
  have c: "CleanList [(0, 0), (1, 0), (0, 1), (0, 1)] = [(0, 0), (1, 0), (0, 1)]"
    by (simp add: CleanList_def multiDimensionalUnique_def)
  show ?thesis by (subst calculate.simps) (simp add: c)
qed

text \<open>
  C3 on the input of the claim: the list \<^verbatim>\<open>[[0,0],[1,0],[0,1]]\<close> has length three, the guard
  of line 39 holds for every \<open>k\<close>, and the result is \<^verbatim>\<open>null\<close>; line 53, which returns a
  dataset of three points, is not reached.
\<close>

theorem calculate_three_points_null:
  "calculate [(0, 0), (1, 0), (0, 1)] 3 = Some Null"
  by (subst calculate.simps) simp

text \<open>
  C4 on a list with one repeated point: with the repeat the three distinct points are
  returned, on the deduplicated list the result is \<^verbatim>\<open>null\<close>.
\<close>

theorem calculate_dedupe_differs:
  "calculate [(0, 0), (1, 0), (0, 1), (0, 1)] 3 = Some (Hull [(0, 0), (1, 0), (0, 1)]) \<and>
   calculate (CleanList [(0, 0), (1, 0), (0, 1), (0, 1)]) 3 = Some Null"
proof -
  have c: "CleanList [(0, 0), (1, 0), (0, 1), (0, 1)] = [(0, 0), (1, 0), (0, 1)]"
    by (simp add: CleanList_def multiDimensionalUnique_def)
  have "calculate [(0, 0), (1, 0), (0, 1), (0, 1)] 3 = Some (Hull [(0, 0), (1, 0), (0, 1)])"
    by (subst calculate.simps) (simp add: c)
  moreover have "calculate [(0, 0), (1, 0), (0, 1)] 3 = Some Null"
    by (subst calculate.simps) simp
  ultimately show ?thesis by (simp add: c)
qed

subsection \<open>The shape of a hull\<close>

text \<open>
  C5 as stated fails on the rectangle: four distinct points, \<open>k = 3\<close>, and the result is the
  four corners with no closing repeat. The dataset is empty after three passes, so the
  loop ends before the seed is put back at \<^verbatim>\<open>step == stop\<close>.
\<close>

theorem calculate_hull_open_counterexample:
  "4 \<le> length (CleanList [(0, 0), (0, 3), (4, 3), (4, 0)]) \<and>
   calculate [(0, 0), (0, 3), (4, 3), (4, 0)] 3 = Some (Hull [(0, 3), (4, 3), (4, 0), (0, 0)]) \<and>
   hd [(0, 3), (4, 3), (4, 0), (0::real, 0::real)] \<noteq> last [(0, 3), (4, 3), (4, 0), (0, 0)]"
  by (simp add: e1_calculate CleanList_distinct_id)

text \<open>
  C5 (as amended). For an input with four or more distinct points, a hull that \<^verbatim>\<open>calculate\<close>
  returns is not empty, all its elements are points of the deduplicated input, and its
  elements without the last are pairwise distinct. Either its last element equals its first
  (the polygon is closed), or all its elements are pairwise distinct and they are exactly
  the deduplicated input (the dataset ran out before the seed was taken again).
\<close>

theorem calculate_hull_shape:
  assumes "calculate pointsList k = Some (Hull h)" and "4 \<le> length (CleanList pointsList)"
  shows "h \<noteq> [] \<and> set h \<subseteq> set (CleanList pointsList) \<and> distinct (butlast h) \<and>
         (last h = hd h \<or> (distinct h \<and> set h = set (CleanList pointsList)))"
proof -
  from calculate_hull_facts[OF assms] obtain fp stop ds where
    "loop_inv (CleanList pointsList) fp stop ds h (last h) (length h + 1)"
    "ds = [] \<or> (last h = fp \<and> 2 \<le> length h)" by blast
  then show ?thesis by (rule hull_shape)
qed

text \<open>C5, an instance: the seven points, whose hull is closed.\<close>

theorem calculate_hull_shape_witness:
  "calculate [(0, 0), (-3, 0), (4, 0), (-3, -2), (-2, -1), (-1, -1), (0, -2)] 3 =
     Some (Hull [(0, 0), (0, -2), (-3, -2), (-3, 0), (4, 0), (0, 0)]) \<and>
   4 \<le> length (CleanList [(0, 0), (-3, 0), (4, 0), (-3, -2), (-2, -1), (-1, -1), (0::real, -2::real)]) \<and>
   [(0, 0), (0, -2), (-3, -2), (-3, 0), (4, 0), (0::real, 0::real)] \<noteq> [] \<and>
   set [(0, 0), (0, -2), (-3, -2), (-3, 0), (4, 0), (0, 0)]
     \<subseteq> set (CleanList [(0, 0), (-3, 0), (4, 0), (-3, -2), (-2, -1), (-1, -1), (0::real, -2::real)]) \<and>
   distinct (butlast [(0, 0), (0, -2), (-3, -2), (-3, 0), (4, 0), (0::real, 0::real)]) \<and>
   (last [(0, 0), (0, -2), (-3, -2), (-3, 0), (4, 0), (0::real, 0::real)]
      = hd [(0, 0), (0, -2), (-3, -2), (-3, 0), (4, 0), (0, 0)] \<or>
    (distinct [(0, 0), (0, -2), (-3, -2), (-3, 0), (4, 0), (0::real, 0::real)] \<and>
     set [(0, 0), (0, -2), (-3, -2), (-3, 0), (4, 0), (0, 0)]
       = set (CleanList [(0, 0), (-3, 0), (4, 0), (-3, -2), (-2, -1), (-1, -1), (0::real, -2::real)])))"
proof -
  have n: "4 \<le> length (CleanList [(0, 0), (-3, 0), (4, 0), (-3, -2), (-2, -1), (-1, -1), (0::real, -2::real)])"
    by (simp add: e7_CleanList)
  from calculate_hull_shape [OF e7_calculate_3 n] e7_calculate_3 n show ?thesis by blast
qed

lemma allInside_loop_outside:
  assumes "q \<in> set ds" and "\<not> PointInPolygonQ q h"
  shows "allInside_loop ds h True (int (length ds) - 1) = False"
  using allInside_loop_all[of ds h q] assms by (cases "allInside_loop ds h True (int (length ds) - 1)") simp_all

lemma calculate_pass_unfold:
  assumes "FindMinYPoint D = Some i" and "RemovePoint D (D ! i) = Some ds0"
  shows "calculate_pass D kk =
    (case main_loop (D ! i) kk (2 + nat kk) ds0 [D ! i] (D ! i) pi 2 of
       Intersecting \<Rightarrow> Retry
     | NoDataset \<Rightarrow> Failed
     | Closed hullv dataset \<Rightarrow>
         (let allInside = allInside_loop dataset hullv True (int (length dataset) - 1)
          in if allInside = False then Retry else Found hullv))"
  by (simp add: calculate_pass_def assms Let_def AddPoint_def)

lemma calculate_pass_outside:
  assumes "FindMinYPoint D = Some i" and "RemovePoint D (D ! i) = Some ds0"
    and "main_loop (D ! i) kk (2 + nat kk) ds0 [D ! i] (D ! i) pi 2 = Closed hv ds"
    and "q \<in> set ds" and "\<not> PointInPolygonQ q hv"
  shows "calculate_pass D kk = Retry"
  by (simp only: calculate_pass_unfold[OF assms(1,2)] assms(3) loop_exit.case Let_def
      allInside_loop_outside[OF assms(4,5)] if_True simp_thms)

subsection \<open>The points left over\<close>

text \<open>
  C6. For an input with four or more distinct points, every point of the deduplicated input
  that is no vertex of the returned hull passes \<^verbatim>\<open>PointInPolygonQ\<close> on that hull. And a pass
  whose main loop ends with a point left over that fails the test is not returned: the
  result of \<^verbatim>\<open>calculate\<close> is that of the call with \<open>kk + 1\<close>, for the clamped \<open>kk\<close> of the
  pass.
\<close>

theorem leftover_points_inside:
  "(calculate pointsList k = Some (Hull h) \<and> 4 \<le> length (CleanList pointsList) \<and>
    p \<in> set (CleanList pointsList) \<and> p \<notin> set h \<longrightarrow> PointInPolygonQ p h) \<and>
   (\<not> int (length pointsList) \<le> max k 3 \<and> 4 \<le> length (CleanList pointsList) \<and>
    kk = min (max k 3) (int (length (CleanList pointsList)) - 1) \<and>
    FindMinYPoint (CleanList pointsList) = Some i \<and>
    RemovePoint (CleanList pointsList) (CleanList pointsList ! i) = Some ds0 \<and>
    main_loop (CleanList pointsList ! i) kk (2 + nat kk) ds0 [CleanList pointsList ! i]
      (CleanList pointsList ! i) pi 2 = Closed hv ds \<and>
    q \<in> set ds \<and> \<not> PointInPolygonQ q hv
    \<longrightarrow> calculate pointsList k = calculate pointsList (kk + 1))"
proof (intro conjI impI)
  assume a: "calculate pointsList k = Some (Hull h) \<and> 4 \<le> length (CleanList pointsList) \<and>
    p \<in> set (CleanList pointsList) \<and> p \<notin> set h"
  then obtain fp stop ds' where
    inv: "loop_inv (CleanList pointsList) fp stop ds' h (last h) (length h + 1)" and
    ins: "\<forall>p\<in>set ds'. PointInPolygonQ p h"
    using calculate_hull_facts[of pointsList k h] by blast
  from inv have "set h \<union> set ds' = set (CleanList pointsList)" by (simp add: loop_inv_def)
  with a have "p \<in> set ds'" by blast
  with ins show "PointInPolygonQ p h" by blast
next
  assume a: "\<not> int (length pointsList) \<le> max k 3 \<and> 4 \<le> length (CleanList pointsList) \<and>
    kk = min (max k 3) (int (length (CleanList pointsList)) - 1) \<and>
    FindMinYPoint (CleanList pointsList) = Some i \<and>
    RemovePoint (CleanList pointsList) (CleanList pointsList ! i) = Some ds0 \<and>
    main_loop (CleanList pointsList ! i) kk (2 + nat kk) ds0 [CleanList pointsList ! i]
      (CleanList pointsList ! i) pi 2 = Closed hv ds \<and>
    q \<in> set ds \<and> \<not> PointInPolygonQ q hv"
  then have "calculate_pass (CleanList pointsList) kk = Retry"
    using calculate_pass_outside[of "CleanList pointsList" i ds0 kk hv ds q] by blast
  with a show "calculate pointsList k = calculate pointsList (kk + 1)"
    using calculate_unfold_general[where k = k and pointsList = pointsList] by simp
qed

text \<open>C6, an instance: the seven points with \<open>k = 3\<close>. The first pass leaves \<open>(4, 0)\<close>
  outside and is retried with \<open>k = 4\<close>; the hull returned has \<open>(-2, -1)\<close> inside.\<close>

theorem leftover_points_inside_witness:
  "calculate [(0, 0), (-3, 0), (4, 0), (-3, -2), (-2, -1), (-1, -1), (0, -2)] 3 =
     Some (Hull [(0, 0), (0, -2), (-3, -2), (-3, 0), (4, 0), (0, 0)]) \<and>
   4 \<le> length (CleanList [(0, 0), (-3, 0), (4, 0), (-3, -2), (-2, -1), (-1, -1), (0::real, -2::real)]) \<and>
   (-2, -1) \<in> set (CleanList [(0, 0), (-3, 0), (4, 0), (-3, -2), (-2, -1), (-1, -1), (0::real, -2::real)]) \<and>
   (-2, -1) \<notin> set [(0, 0), (0, -2), (-3, -2), (-3, 0), (4, 0), (0::real, 0::real)] \<and>
   PointInPolygonQ (-2, -1) [(0, 0), (0, -2), (-3, -2), (-3, 0), (4, 0), (0, 0)] \<and>
   \<not> int (length [(0, 0), (-3, 0), (4, 0), (-3, -2), (-2, -1), (-1, -1), (0::real, -2::real)]) \<le> max 3 3 \<and>
   (3::int) = min (max 3 3)
     (int (length (CleanList [(0, 0), (-3, 0), (4, 0), (-3, -2), (-2, -1), (-1, -1), (0::real, -2::real)])) - 1) \<and>
   FindMinYPoint (CleanList [(0, 0), (-3, 0), (4, 0), (-3, -2), (-2, -1), (-1, -1), (0, -2)]) = Some 0 \<and>
   RemovePoint (CleanList [(0, 0), (-3, 0), (4, 0), (-3, -2), (-2, -1), (-1, -1), (0, -2)])
     (CleanList [(0, 0), (-3, 0), (4, 0), (-3, -2), (-2, -1), (-1, -1), (0, -2)] ! 0) =
     Some [(-3, 0), (4, 0), (-3, -2), (-2, -1), (-1, -1), (0, -2)] \<and>
   main_loop (CleanList [(0, 0), (-3, 0), (4, 0), (-3, -2), (-2, -1), (-1, -1), (0, -2)] ! 0) 3 (2 + nat 3)
     [(-3, 0), (4, 0), (-3, -2), (-2, -1), (-1, -1), (0, -2)]
     [CleanList [(0, 0), (-3, 0), (4, 0), (-3, -2), (-2, -1), (-1, -1), (0, -2)] ! 0]
     (CleanList [(0, 0), (-3, 0), (4, 0), (-3, -2), (-2, -1), (-1, -1), (0, -2)] ! 0) pi 2 =
     Closed [(0, 0), (0, -2), (-3, -2), (-3, 0), (0, 0)] [(4, 0), (-2, -1), (-1, -1)] \<and>
   (4, 0) \<in> set [(4, 0), (-2, -1), (-1::real, -1::real)] \<and>
   \<not> PointInPolygonQ (4, 0) [(0, 0), (0, -2), (-3, -2), (-3, 0), (0, 0)] \<and>
   calculate [(0, 0), (-3, 0), (4, 0), (-3, -2), (-2, -1), (-1, -1), (0, -2)] 3 =
     calculate [(0, 0), (-3, 0), (4, 0), (-3, -2), (-2, -1), (-1, -1), (0, -2)] (3 + 1)"
proof -
  let ?P = "[(0, 0), (-3, 0), (4, 0), (-3, -2), (-2, -1), (-1, -1), (0::real, -2::real)]"
  let ?H = "[(0, 0), (0, -2), (-3, -2), (-3, 0), (4, 0), (0::real, 0::real)]"
  have n: "4 \<le> length (CleanList ?P)" by (simp add: e7_CleanList)
  have p: "(-2, -1) \<in> set (CleanList ?P)" "(-2, -1) \<notin> set ?H" by simp_all
  have g: "\<not> int (length ?P) \<le> max 3 3" by simp
  have kk: "(3::int) = min (max 3 3) (int (length (CleanList ?P)) - 1)" by (simp add: e7_CleanList)
  have s: "FindMinYPoint (CleanList ?P) = Some 0" by (simp add: e7_CleanList e7_k3_seed)
  have r: "RemovePoint (CleanList ?P) (CleanList ?P ! 0) =
      Some [(-3, 0), (4, 0), (-3, -2), (-2, -1), (-1, -1), (0, -2)]"
    by (simp add: e7_CleanList)
  have m: "main_loop (CleanList ?P ! 0) 3 (2 + nat 3)
      [(-3, 0), (4, 0), (-3, -2), (-2, -1), (-1, -1), (0, -2)] [CleanList ?P ! 0] (CleanList ?P ! 0) pi 2 =
      Closed [(0, 0), (0, -2), (-3, -2), (-3, 0), (0, 0)] [(4, 0), (-2, -1), (-1, -1)]"
    using e7_k3_main by (simp add: e7_CleanList)
  have q: "(4, 0) \<in> set [(4, 0), (-2, -1), (-1::real, -1::real)]" by simp
  have o: "\<not> PointInPolygonQ (4, 0) [(0, 0), (0, -2), (-3, -2), (-3, 0), (0, 0)]"
    by (simp add: e7_k3_pip_0)
  note t = leftover_points_inside [of ?P 3 ?H "(-2, -1)" 3 0
      "[(-3, 0), (4, 0), (-3, -2), (-2, -1), (-1, -1), (0, -2)]"
      "[(0, 0), (0, -2), (-3, -2), (-3, 0), (0, 0)]" "[(4, 0), (-2, -1), (-1, -1)]" "(4, 0)"]
  from t e7_calculate_3 n p g kk s r m q o show ?thesis by blast
qed

subsection \<open>Crossing edges\<close>

text \<open>
  C7 on the five points with \<open>k = 4\<close>: the hull is returned open, its fifth edge is the one
  that closes it, from the last point \<open>(-2, 0)\<close> back to the seed \<open>(-5, 3)\<close>, and this edge
  crosses the third edge, from \<open>(-5, -3)\<close> to \<open>(-2, 1)\<close>, at \<open>(-17/7, 3/7)\<close>, an inner point
  of both; \<^verbatim>\<open>IntersectsQ\<close> is true in either order. The test of lines 114-125 is made for
  the edge to a new point; when the dataset runs out before \<^verbatim>\<open>step == stop\<close> the closing
  edge is never tested.
\<close>

theorem hull_closing_edge_crosses:
  "calculate [(-5, -3), (-2, 0), (-5, 3), (-2, 1), (1, 0)] 4 =
     Some (Hull [(-5, 3), (1, 0), (-5, -3), (-2, 1), (-2, 0)]) \<and>
   IntersectsQ ((-2, 0), (-5, 3)) ((-5, -3), (-2, 1)) = True \<and>
   IntersectsQ ((-5, -3), (-2, 1)) ((-2, 0), (-5, 3)) = True \<and>
   getLineLineCollision (-2, 0) (-5, 3) (-5, -3) (-2, 1) = Some (- 17 / 7, 3 / 7)"
  by (simp add: p5_calculate IntersectsQ_def getLineLineCollision_def)

text \<open>
  Among the edges that are elements of the returned list, \<^verbatim>\<open>IntersectsQ\<close> is not symmetric
  where a segment ends on the other one. In the hull of the seven points the edge from
  \<open>(-3, 0)\<close> to \<open>(4, 0)\<close> passes through the seed \<open>(0, 0)\<close>; the first edge, from \<open>(0, 0)\<close> to
  \<open>(0, -2)\<close>, is not adjacent to it, and \<^verbatim>\<open>IntersectsQ\<close> of the first edge and that edge is
  true.
\<close>

theorem hull_edges_either_order_counterexample:
  "4 \<le> length (CleanList [(0, 0), (-3, 0), (4, 0), (-3, -2), (-2, -1), (-1, -1), (0::real, -2::real)]) \<and>
   calculate [(0, 0), (-3, 0), (4, 0), (-3, -2), (-2, -1), (-1, -1), (0, -2)] 4 =
     Some (Hull [(0, 0), (0, -2), (-3, -2), (-3, 0), (4, 0), (0, 0)]) \<and>
   IntersectsQ ([(0, 0), (0, -2), (-3, -2), (-3, 0), (4, 0), (0, 0)] ! 0,
                [(0, 0), (0, -2), (-3, -2), (-3, 0), (4, 0), (0, 0)] ! 1)
               ([(0, 0), (0, -2), (-3, -2), (-3, 0), (4, 0), (0, 0)] ! 3,
                [(0, 0), (0, -2), (-3, -2), (-3, 0), (4, 0), (0, 0)] ! 4) = True"
  by (simp add: e7_CleanList e7_calculate_4 IntersectsQ_def getLineLineCollision_def)

text \<open>
  What the test of lines 114-125 does give: for an input with four or more distinct points
  and a returned hull, \<^verbatim>\<open>IntersectsQ\<close> applied to a later edge and an earlier, non-adjacent
  edge, in this order (the order of the test in lines 119-122), is false. Edges \<open>i\<close> and \<open>j\<close>
  run from element \<open>i\<close> to \<open>i + 1\<close> and from \<open>j\<close> to \<open>j + 1\<close> of the list; the last and the
  first edge of a closed hull are adjacent. The edge that closes an open hull is not among
  them.
\<close>

theorem hull_later_edge_clear_of_earlier:
  assumes "calculate pointsList k = Some (Hull h)" and "4 \<le> length (CleanList pointsList)"
    and "i + 1 < j" and "j + 1 < length h"
    and "\<not> (i = 0 \<and> j + 2 = length h \<and> last h = hd h)"
  shows "IntersectsQ (h ! j, h ! (j + 1)) (h ! i, h ! (i + 1)) = False"
proof -
  from calculate_hull_facts[OF assms(1,2)] have ec: "edges_clear h" by blast
  have "\<not> (i = 0 \<and> j + 2 = length h \<and> h ! (j + 1) = h ! 0)"
  proof
    assume a: "i = 0 \<and> j + 2 = length h \<and> h ! (j + 1) = h ! 0"
    then have ne: "h \<noteq> []" by auto
    from a have "j + 1 = length h - 1" by arith
    with a have "last h = hd h" using ne by (simp add: last_conv_nth hd_conv_nth)
    with a assms(5) show False by simp
  qed
  with ec assms(3,4) show ?thesis unfolding edges_clear_def by blast
qed

text \<open>An instance: the two edges of the seven points, in the other order.\<close>

theorem hull_later_edge_clear_of_earlier_witness:
  "calculate [(0, 0), (-3, 0), (4, 0), (-3, -2), (-2, -1), (-1, -1), (0, -2)] 4 =
     Some (Hull [(0, 0), (0, -2), (-3, -2), (-3, 0), (4, 0), (0, 0)]) \<and>
   4 \<le> length (CleanList [(0, 0), (-3, 0), (4, 0), (-3, -2), (-2, -1), (-1, -1), (0::real, -2::real)]) \<and>
   (0::nat) + 1 < 3 \<and> (3::nat) + 1 < length [(0, 0), (0, -2), (-3, -2), (-3, 0), (4, 0), (0::real, 0::real)] \<and>
   \<not> ((0::nat) = 0 \<and> (3::nat) + 2 = length [(0, 0), (0, -2), (-3, -2), (-3, 0), (4, 0), (0::real, 0::real)] \<and>
      last [(0, 0), (0, -2), (-3, -2), (-3, 0), (4, 0), (0::real, 0::real)]
        = hd [(0, 0), (0, -2), (-3, -2), (-3, 0), (4, 0), (0, 0)]) \<and>
   IntersectsQ ([(0, 0), (0, -2), (-3, -2), (-3, 0), (4, 0), (0, 0)] ! 3,
                [(0, 0), (0, -2), (-3, -2), (-3, 0), (4, 0), (0, 0)] ! (3 + 1))
               ([(0, 0), (0, -2), (-3, -2), (-3, 0), (4, 0), (0, 0)] ! 0,
                [(0, 0), (0, -2), (-3, -2), (-3, 0), (4, 0), (0, 0)] ! (0 + 1)) = False"
proof -
  let ?P = "[(0, 0), (-3, 0), (4, 0), (-3, -2), (-2, -1), (-1, -1), (0::real, -2::real)]"
  let ?H = "[(0, 0), (0, -2), (-3, -2), (-3, 0), (4, 0), (0::real, 0::real)]"
  have n: "4 \<le> length (CleanList ?P)" by (simp add: e7_CleanList)
  have ij: "(0::nat) + 1 < 3" "(3::nat) + 1 < length ?H" by simp_all
  have ex: "\<not> ((0::nat) = 0 \<and> (3::nat) + 2 = length ?H \<and> last ?H = hd ?H)" by simp
  from hull_later_edge_clear_of_earlier [OF e7_calculate_4 n ij ex] e7_calculate_4 n ij ex
  show ?thesis by blast
qed

section \<open>The angle over the reals\<close>

text \<open>In exact arithmetic \<^verbatim>\<open>Math.atan2\<close> lies in the half-open interval from \<open>-\<pi>\<close> to \<open>\<pi>\<close>,
  so that \<^verbatim>\<open>Angle\<close> is \<open>\<pi>\<close> minus it; these facts serve the next section.\<close>

lemma atan2_bounds: "- pi < atan2 y x \<and> atan2 y x \<le> pi"
proof -
  have b: "- (pi / 2) < arctan (y / x)" "arctan (y / x) < pi / 2"
    by (rule arctan_lbound, rule arctan_ubound)
  have p: "2 \<le> pi" by (rule pi_ge_two)
  show ?thesis
  proof (cases "x < 0")
    case True
    show ?thesis
    proof (cases "y \<ge> 0")
      case True
      with \<open>x < 0\<close> have "y / x \<le> 0" by (simp add: divide_nonneg_neg)
      then have "arctan (y / x) \<le> 0" by simp
      with True \<open>x < 0\<close> b p show ?thesis by (simp add: atan2_def)
    next
      case False
      with \<open>x < 0\<close> have "0 < y / x" by (simp add: divide_neg_neg)
      then have "0 < arctan (y / x)" by simp
      with False \<open>x < 0\<close> b p show ?thesis by (simp add: atan2_def)
    qed
  next
    case False
    with b p show ?thesis by (auto simp: atan2_def)
  qed
qed

lemma sqrt_sum_squares_div:
  assumes "x \<noteq> 0"
  shows "sqrt (1 + (y / x)\<^sup>2) = sqrt (x\<^sup>2 + y\<^sup>2) / \<bar>x\<bar>"
proof -
  have "1 + (y / x)\<^sup>2 = (x\<^sup>2 + y\<^sup>2) / x\<^sup>2"
    using assms by (simp add: power_divide add_divide_distrib)
  then show ?thesis by (simp add: real_sqrt_divide)
qed

lemma atan2_polar:
  assumes "x \<noteq> 0 \<or> y \<noteq> 0"
  shows "sqrt (x\<^sup>2 + y\<^sup>2) * cos (atan2 y x) = x \<and> sqrt (x\<^sup>2 + y\<^sup>2) * sin (atan2 y x) = y"
proof (cases "x = 0")
  case True
  with assms have "y \<noteq> 0" by simp
  with True show ?thesis by (auto simp: atan2_def)
next
  case False
  have r: "sqrt (x\<^sup>2 + y\<^sup>2) > 0" using False by (simp add: sum_power2_gt_zero_iff)
  have c: "cos (arctan (y / x)) = \<bar>x\<bar> / sqrt (x\<^sup>2 + y\<^sup>2)"
    by (simp add: cos_arctan sqrt_sum_squares_div[OF False])
  have s: "sin (arctan (y / x)) = (y / x) * (\<bar>x\<bar> / sqrt (x\<^sup>2 + y\<^sup>2))"
    by (simp add: sin_arctan sqrt_sum_squares_div[OF False])
  show ?thesis
  proof (cases "x > 0")
    case True
    with r c s show ?thesis by (simp add: atan2_def)
  next
    case False
    with \<open>x \<noteq> 0\<close> have "x < 0" by simp
    with r c s show ?thesis by (simp add: atan2_def)
  qed
qed


lemma Angle_eq: "Angle a b = pi - atan2 (snd b - snd a) (fst b - fst a)"
  using atan2_bounds[of "snd b - snd a" "fst b - fst a"] by (simp add: Angle_def Let_def)

section \<open>The escalation in exact arithmetic, with insertion from the left\<close>

text \<open>
  A retry runs with the neighbour count raised by one and then clamped to one less than
  the number of distinct points. So the escalation ends as soon as the pass with that
  largest count cannot ask for a retry. In that pass every point of the dataset is a
  candidate at every step. Over the real numbers, and with a sort that puts the nearer of
  two candidates in the same direction first, the first candidate of \<^verbatim>\<open>SortByAngle\<close> is
  never rejected there: the hull grows as a spiral that keeps every point still to come on
  its right, until the dataset is empty. Both conditions are needed: the next section has a
  sort with which the last pass asks for a retry, and rounding in
  \<^verbatim>\<open>getLineLineCollision\<close> can do the same.
\<close>

subsection \<open>What the two sorts guarantee\<close>

text \<open>The comparator of \<^verbatim>\<open>NearestPoints\<close> yields an ascending order.\<close>

lemma sorted_insert_ascending:
  fixes x :: "'a \<times> real"
  assumes "sorted_wrt (\<lambda>a b. snd a \<le> snd b) ys"
  shows "sorted_wrt (\<lambda>a b. snd a \<le> snd b)
           (insert_compare (\<lambda>a b. if snd a > snd b then 1 else - 1) x ys)"
  using assms
proof (induction ys)
  case Nil
  then show ?case by simp
next
  case (Cons y ys)
  from Cons.prems have s: "sorted_wrt (\<lambda>a b. snd a \<le> snd b) ys"
    and le: "\<forall>z\<in>set ys. snd y \<le> snd z" by simp_all
  show ?case
  proof (cases "snd x > snd y")
    case True
    then have e: "insert_compare (\<lambda>a b. if snd a > snd b then 1 else - 1) x (y # ys) =
       y # insert_compare (\<lambda>a b. if snd a > snd b then 1 else - 1) x ys" by simp
    from True have "snd y \<le> snd x" by simp
    with le Cons.IH[OF s] show ?thesis by (simp only: e sorted_wrt.simps set_insert_compare) simp
  next
    case False
    then have e: "insert_compare (\<lambda>a b. if snd a > snd b then 1 else - 1) x (y # ys) =
       x # y # ys" by simp
    from False have xy: "snd x \<le> snd y" by simp
    have "\<forall>z\<in>set ys. snd x \<le> snd z"
    proof
      fix z assume "z \<in> set ys"
      with le have "snd y \<le> snd z" by blast
      with xy show "snd x \<le> snd z" by (rule order_trans)
    qed
    with xy Cons.prems show ?thesis by (simp only: e sorted_wrt.simps) simp
  qed
qed


lemma sorted_foldl_ascending:
  fixes xs :: "('a \<times> real) list"
  assumes "sorted_wrt (\<lambda>a b. snd a \<le> snd b) acc"
  shows "sorted_wrt (\<lambda>a b. snd a \<le> snd b)
           (foldl (\<lambda>acc x. insert_compare (\<lambda>a b. if snd a > snd b then 1 else - 1) x acc) acc xs)"
  using assms
proof (induction xs arbitrary: acc)
  case Nil
  then show ?case by simp
next
  case (Cons x xs)
  from Cons.IH[OF sorted_insert_ascending[OF Cons.prems, of x]] show ?case by simp
qed

lemma sorted_array_sort_ascending:
  fixes xs :: "('a \<times> real) list"
  shows "sorted_wrt (\<lambda>a b. snd a \<le> snd b)
           (array_sort (\<lambda>a b. if snd a > snd b then 1 else - 1) xs)"
  unfolding array_sort_def by (rule sorted_foldl_ascending) simp

lemma NearestPoints_sorted:
  "sorted_wrt (\<lambda>p q. distance p point \<le> distance q point) (NearestPoints points point k)"
proof -
  define c where "c = map (\<lambda>p. (p, distance p point)) points"
  define s where "s = array_sort (\<lambda>a b. if snd a > snd b then 1 else - 1) c"
  have s: "sorted_wrt (\<lambda>a b. snd a \<le> snd b) s"
    unfolding s_def by (rule sorted_array_sort_ascending)
  have "set s = set c" by (simp add: s_def)
  then have e: "\<And>a. a \<in> set s \<Longrightarrow> snd a = distance (fst a) point"
    by (auto simp: c_def)
  have "sorted_wrt (\<lambda>a b. distance (fst a) point \<le> distance (fst b) point) s"
    by (rule sorted_wrt_mono_rel[OF _ s]) (simp add: e)
  then have "sorted_wrt (\<lambda>a b. distance (fst a) point \<le> distance (fst b) point)
      (take (nat (min k (int (length s)))) s)"
    by (rule sorted_wrt_take)
  then have "sorted_wrt (\<lambda>p q. distance p point \<le> distance q point)
      (map fst (take (nat (min k (int (length s)))) s))"
    by (simp add: sorted_wrt_map)
  then show ?thesis by (simp add: NearestPoints_def Let_def s_def c_def)
qed

lemma NearestPoints_all:
  assumes "int (length points) \<le> k"
  shows "set (NearestPoints points point k) = set points"
proof -
  define c where "c = map (\<lambda>p. (p, distance p point)) points"
  define s where "s = array_sort (\<lambda>a b. if snd a > snd b then 1 else - 1) c"
  have l: "length s = length points" by (simp add: s_def c_def)
  have "nat (min k (int (length s))) = length s" using assms l by simp
  then have "take (nat (min k (int (length s)))) s = s" by simp
  then have "NearestPoints points point k = map fst s"
    by (simp add: NearestPoints_def Let_def s_def c_def)
  moreover have "set s = set c" by (simp add: s_def)
  ultimately show ?thesis by (simp add: c_def image_image)
qed

text \<open>The comparator of \<^verbatim>\<open>SortByAngle\<close> puts first the first element with the largest key.\<close>

lemma insert_compare_nonempty: "insert_compare c x ys \<noteq> []"
  by (cases ys) simp_all

lemma hd_insert_descending:
  fixes x :: "'a \<times> real"
  shows "hd (insert_compare (\<lambda>a b. if snd a > snd b then - 1 else 1) x ys) =
         (if ys = [] then x else if snd x > snd (hd ys) then x else hd ys)"
  by (cases ys) simp_all

lemma hd_foldl_descending:
  fixes xs :: "('a \<times> real) list" and d :: "'a \<times> real \<Rightarrow> real"
  assumes "sorted_wrt (\<lambda>a b. d a \<le> d b) xs" and "xs \<noteq> []"
  shows "foldl (\<lambda>acc x. insert_compare (\<lambda>a b. if snd a > snd b then - 1 else 1) x acc) [] xs \<noteq> [] \<and>
         hd (foldl (\<lambda>acc x. insert_compare (\<lambda>a b. if snd a > snd b then - 1 else 1) x acc) [] xs) \<in> set xs \<and>
         (\<forall>y\<in>set xs. snd y \<le> snd (hd (foldl (\<lambda>acc x. insert_compare (\<lambda>a b. if snd a > snd b then - 1 else 1) x acc) [] xs)) \<and>
            (snd y = snd (hd (foldl (\<lambda>acc x. insert_compare (\<lambda>a b. if snd a > snd b then - 1 else 1) x acc) [] xs)) \<longrightarrow>
             d (hd (foldl (\<lambda>acc x. insert_compare (\<lambda>a b. if snd a > snd b then - 1 else 1) x acc) [] xs)) \<le> d y))"
  using assms
proof (induction xs rule: rev_induct)
  case Nil
  then show ?case by simp
next
  case (snoc x xs)
  define acc where "acc = foldl (\<lambda>acc x. insert_compare (\<lambda>a b. if snd a > snd b then - 1 else 1) x acc) [] xs"
  define r where "r = foldl (\<lambda>acc x. insert_compare (\<lambda>a b. if snd a > snd b then - 1 else 1) x acc) [] (xs @ [x])"
  have fold: "r = insert_compare (\<lambda>a b. if snd a > snd b then - 1 else 1) x acc"
    by (simp add: r_def acc_def)
  have rne: "r \<noteq> []" by (simp add: fold insert_compare_nonempty)
  have hd: "hd r = (if acc = [] then x else if snd x > snd (hd acc) then x else hd acc)"
    unfolding fold by (rule hd_insert_descending)
  have goal: "r \<noteq> [] \<and> hd r \<in> set (xs @ [x]) \<and>
      (\<forall>y\<in>set (xs @ [x]). snd y \<le> snd (hd r) \<and> (snd y = snd (hd r) \<longrightarrow> d (hd r) \<le> d y))"
  proof (cases "xs = []")
    case True
    then have "acc = []" by (simp add: acc_def)
    with hd have "hd r = x" by simp
    with rne True show ?thesis by simp
  next
    case False
    from snoc.prems(1) have sx: "sorted_wrt (\<lambda>a b. d a \<le> d b) xs" and
      le: "\<And>y. y \<in> set xs \<Longrightarrow> d y \<le> d x"
      by (simp_all add: sorted_wrt_append)
    from snoc.IH[OF sx False] have
      ne: "acc \<noteq> []" and hin: "hd acc \<in> set xs" and
      mx: "\<And>y. y \<in> set xs \<Longrightarrow> snd y \<le> snd (hd acc)" and
      tie: "\<And>y. y \<in> set xs \<Longrightarrow> snd y = snd (hd acc) \<Longrightarrow> d (hd acc) \<le> d y"
      unfolding acc_def by blast+
    show ?thesis
    proof (cases "snd x > snd (hd acc)")
      case True
      with hd ne have h: "hd r = x" by simp
      have "snd y \<le> snd x \<and> (snd y = snd x \<longrightarrow> d x \<le> d y)" if "y \<in> set (xs @ [x])" for y
      proof (cases "y = x")
        case True
        then show ?thesis by simp
      next
        case False
        with that have "y \<in> set xs" by simp
        from mx[OF this] True show ?thesis by simp
      qed
      with rne show ?thesis unfolding h by simp
    next
      case nt: False
      with hd ne have h: "hd r = hd acc" by simp
      have "snd y \<le> snd (hd acc) \<and> (snd y = snd (hd acc) \<longrightarrow> d (hd acc) \<le> d y)"
        if "y \<in> set (xs @ [x])" for y
      proof (cases "y \<in> set xs")
        case True
        from mx[OF this] tie[OF this] show ?thesis by simp
      next
        case False
        with that have "y = x" by simp
        with nt le[OF hin] show ?thesis by simp
      qed
      with rne hin show ?thesis unfolding h by simp
    qed
  qed
  then show ?case unfolding r_def .
qed

definition angle_key :: "point \<Rightarrow> real \<Rightarrow> point \<Rightarrow> real" where
  "angle_key point prev_angle p =
     (let angle = prev_angle - Angle p point in if angle < 0 then angle + 2 * pi else angle)"

lemma SortByAngle_hd:
  assumes "sorted_wrt (\<lambda>p q. distance p point \<le> distance q point) points" and "points \<noteq> []"
  shows "SortByAngle points point prev_angle \<noteq> [] \<and>
         hd (SortByAngle points point prev_angle) \<in> set points \<and>
         (\<forall>p\<in>set points. angle_key point prev_angle p \<le> angle_key point prev_angle (hd (SortByAngle points point prev_angle)) \<and>
            (angle_key point prev_angle p = angle_key point prev_angle (hd (SortByAngle points point prev_angle)) \<longrightarrow>
             distance (hd (SortByAngle points point prev_angle)) point \<le> distance p point))"
proof -
  define key where "key = angle_key point prev_angle"
  define c where "c = map (\<lambda>p. (p, key p)) points"
  define s where "s = array_sort (\<lambda>a b. if snd a > snd b then - 1 else 1) c"
  have S: "SortByAngle points point prev_angle = map fst s"
    by (simp add: SortByAngle_def s_def c_def key_def angle_key_def array_sort_def Let_def)
  have sc: "sorted_wrt (\<lambda>a b. distance (fst a) point \<le> distance (fst b) point) c"
    using assms(1) by (simp add: c_def sorted_wrt_map)
  have cne: "c \<noteq> []" using assms(2) by (simp add: c_def)
  from hd_foldl_descending[OF sc cne] have
    ne: "s \<noteq> []" and hin: "hd s \<in> set c" and
    mx: "\<And>y. y \<in> set c \<Longrightarrow> snd y \<le> snd (hd s)" and
    tie: "\<And>y. y \<in> set c \<Longrightarrow> snd y = snd (hd s) \<Longrightarrow> distance (fst (hd s)) point \<le> distance (fst y) point"
    unfolding s_def array_sort_def by blast+
  have h: "hd (map fst s) = fst (hd s)" using ne by (simp add: hd_map)
  from hin have hk: "snd (hd s) = key (fst (hd s))" and hp: "fst (hd s) \<in> set points"
    by (auto simp: c_def)
  have "key p \<le> key (fst (hd s)) \<and> (key p = key (fst (hd s)) \<longrightarrow>
      distance (fst (hd s)) point \<le> distance p point)" if "p \<in> set points" for p
  proof -
    from that have m: "(p, key p) \<in> set c" by (simp add: c_def)
    from mx[OF m] tie[OF m] hk show ?thesis by simp
  qed
  with ne hp show ?thesis unfolding S h key_def by simp
qed

subsection \<open>Edges and the points clear of them\<close>

definition cross :: "point \<Rightarrow> point \<Rightarrow> real" where
  "cross v w = fst v * snd w - snd v * fst w"

definition dot :: "point \<Rightarrow> point \<Rightarrow> real" where
  "dot v w = fst v * fst w + snd v * snd w"

definition vec :: "point \<Rightarrow> point \<Rightarrow> point" where
  "vec a b = (fst b - fst a, snd b - snd a)"

text \<open>A point \<open>p\<close> is \<^emph>\<open>clear of\<close> the edge from \<open>a\<close> to \<open>b\<close> when it lies on the right of the
  edge or on its line, and then outside the closed segment.\<close>

definition clear_of :: "point \<Rightarrow> point \<Rightarrow> point \<Rightarrow> bool" where
  "clear_of a b p \<longleftrightarrow>
     cross (vec a b) (vec a p) \<le> 0 \<and>
     (cross (vec a b) (vec a p) = 0 \<longrightarrow>
        dot (vec a p) (vec a b) < 0 \<or> dot (vec a b) (vec a b) < dot (vec a p) (vec a b))"

lemma getLineLineCollision_clear:
  assumes cur: "clear_of a b cur" and c: "cross (vec a b) (vec a c) \<le> 0"
  shows "getLineLineCollision cur c a b = None"
proof -
  define dx where "dx = fst c - fst cur"
  define dy where "dy = snd c - snd cur"
  define ex where "ex = fst b - fst a"
  define ey where "ey = snd b - snd a"
  define wx where "wx = fst cur - fst a"
  define wy where "wy = snd cur - snd a"
  define denom where "denom = dx * ey - ex * dy"
  define s where "s = dx * wy - dy * wx"
  define t where "t = ex * wy - ey * wx"
  have t0: "t \<le> 0" using cur by (simp add: clear_of_def cross_def vec_def t_def ex_def ey_def wx_def wy_def)
  have "ex * (wy + dy) - ey * (wx + dx) \<le> 0"
    using c by (simp add: cross_def vec_def ex_def ey_def wx_def wy_def dx_def dy_def)
  then have td: "t \<le> denom" by (simp add: t_def denom_def algebra_simps)
  have on: "wx * ex + wy * ey < 0 \<or> ex * ex + ey * ey < wx * ex + wy * ey" if "t = 0"
    using cur that by (simp add: clear_of_def cross_def dot_def vec_def t_def ex_def ey_def wx_def wy_def)
  have ident: "s * (ex * ex + ey * ey) = (wx * ex + wy * ey) * denom + (dx * ex + dy * ey) * t"
    by (simp add: s_def t_def denom_def algebra_simps)
  have impossible: False if dp: "denom > 0" and s0: "0 \<le> s" and sd: "s \<le> denom" and tz: "t = 0"
  proof -
    have ee: "ex * ex + ey * ey > 0"
    proof -
      have "ex \<noteq> 0 \<or> ey \<noteq> 0" using dp by (auto simp: denom_def)
      then show ?thesis by (metis not_sum_squares_lt_zero sum_squares_eq_zero_iff linorder_neqE_linordered_idom)
    qed
    from ident tz have id: "s * (ex * ex + ey * ey) = (wx * ex + wy * ey) * denom" by simp
    have "0 \<le> s * (ex * ex + ey * ey)" using s0 ee by simp
    with id have "0 \<le> (wx * ex + wy * ey) * denom" by simp
    with dp have a: "0 \<le> wx * ex + wy * ey" by (simp add: zero_le_mult_iff)
    have "s * (ex * ex + ey * ey) \<le> denom * (ex * ex + ey * ey)"
      using sd ee by (simp add: mult_right_mono)
    with id have "(wx * ex + wy * ey) * denom \<le> (ex * ex + ey * ey) * denom" by (simp add: mult.commute)
    with dp have b: "wx * ex + wy * ey \<le> ex * ex + ey * ey" by simp
    from on[OF tz] a b show False by simp
  qed
  have unf: "getLineLineCollision cur c a b =
     (if denom = 0 then None
      else if (s < 0) = (denom > 0) then None
      else if (t < 0) = (denom > 0) then None
      else if (s > denom) = (denom > 0) \<or> (t > denom) = (denom > 0) then None
      else Some (fst cur + (t / denom) * dx, snd cur + (t / denom) * dy))"
    by (simp add: getLineLineCollision_def Let_def denom_def s_def t_def dx_def dy_def ex_def ey_def wx_def wy_def)
  show ?thesis
  proof (cases "denom > 0")
    case True
    show ?thesis
    proof (cases "s < 0 \<or> t < 0 \<or> s > denom")
      case True
      with \<open>denom > 0\<close> show ?thesis unfolding unf by auto
    next
      case False
      with t0 have "0 \<le> s" "s \<le> denom" "t = 0" by simp_all
      with impossible[OF True] show ?thesis by simp
    qed
  next
    case False
    with td show ?thesis unfolding unf by auto
  qed
qed

subsection \<open>The sorting key as an angle between vectors\<close>

lemma angle_key_cases:
  "angle_key cur prev p = prev - Angle p cur \<or> angle_key cur prev p = prev - Angle p cur + 2 * pi"
  by (simp add: angle_key_def Let_def)

lemma angle_key_range:
  assumes "0 \<le> prev" "prev < 2 * pi"
  shows "0 \<le> angle_key cur prev p \<and> angle_key cur prev p < 2 * pi"
proof -
  have "- pi < atan2 (snd cur - snd p) (fst cur - fst p) \<and> atan2 (snd cur - snd p) (fst cur - fst p) \<le> pi"
    by (rule atan2_bounds)
  then have "0 \<le> Angle p cur \<and> Angle p cur < 2 * pi" by (simp add: Angle_eq)
  with assms show ?thesis by (simp add: angle_key_def Let_def)
qed

lemma distance_polar:
  assumes "p \<noteq> cur"
  shows "distance p cur * cos (Angle p cur) = - fst (vec p cur)"
    and "distance p cur * sin (Angle p cur) = snd (vec p cur)"
    and "0 < distance p cur"
proof -
  from assms have ne: "fst cur - fst p \<noteq> 0 \<or> snd cur - snd p \<noteq> 0" by (auto simp: prod_eq_iff)
  from atan2_polar[OF ne] show "distance p cur * cos (Angle p cur) = - fst (vec p cur)"
    and "distance p cur * sin (Angle p cur) = snd (vec p cur)"
    by (simp_all add: Angle_eq distance_def vec_def)
  from ne show "0 < distance p cur"
    by (auto simp: distance_def sum_power2_gt_zero_iff)
qed

lemma angle_key_diff:
  assumes p: "p \<noteq> cur" and q: "q \<noteq> cur"
  shows "distance p cur * distance q cur * sin (angle_key cur prev q - angle_key cur prev p) =
           cross (vec p cur) (vec q cur)"
    and "distance p cur * distance q cur * cos (angle_key cur prev q - angle_key cur prev p) =
           dot (vec p cur) (vec q cur)"
proof -
  define a where "a = Angle p cur"
  define b where "b = Angle q cur"
  define rp where "rp = distance p cur"
  define rq where "rq = distance q cur"
  have pc: "rp * cos a = - fst (vec p cur)" and ps: "rp * sin a = snd (vec p cur)"
    using distance_polar[OF p] by (simp_all add: a_def rp_def)
  have qc: "rq * cos b = - fst (vec q cur)" and qs: "rq * sin b = snd (vec q cur)"
    using distance_polar[OF q] by (simp_all add: b_def rq_def)
  have s: "sin (angle_key cur prev q - angle_key cur prev p) = sin (a - b)"
    and c: "cos (angle_key cur prev q - angle_key cur prev p) = cos (a - b)"
  proof -
    have e: "angle_key cur prev q - angle_key cur prev p = a - b \<or>
          angle_key cur prev q - angle_key cur prev p = a - b + 2 * pi \<or>
          angle_key cur prev q - angle_key cur prev p = a - b - 2 * pi"
      using angle_key_cases[of cur prev p] angle_key_cases[of cur prev q]
      unfolding a_def b_def by argo
    have s2: "sin (a - b - 2 * pi) = sin (a - b)" using sin_periodic[of "a - b - 2 * pi"] by simp
    have c2: "cos (a - b - 2 * pi) = cos (a - b)" using cos_periodic[of "a - b - 2 * pi"] by simp
    from e s2 show "sin (angle_key cur prev q - angle_key cur prev p) = sin (a - b)" by auto
    from e c2 show "cos (angle_key cur prev q - angle_key cur prev p) = cos (a - b)" by auto
  qed
  have "rp * rq * sin (a - b) = (rp * sin a) * (rq * cos b) - (rp * cos a) * (rq * sin b)"
    by (simp add: sin_diff algebra_simps)
  also have "\<dots> = cross (vec p cur) (vec q cur)"
    unfolding pc ps qc qs by (simp add: cross_def algebra_simps)
  finally show "distance p cur * distance q cur * sin (angle_key cur prev q - angle_key cur prev p) =
           cross (vec p cur) (vec q cur)"
    unfolding s rp_def rq_def .
  have "rp * rq * cos (a - b) = (rp * cos a) * (rq * cos b) + (rp * sin a) * (rq * sin b)"
    by (simp add: cos_diff algebra_simps)
  also have "\<dots> = dot (vec p cur) (vec q cur)"
    unfolding pc ps qc qs by (simp add: dot_def algebra_simps)
  finally show "distance p cur * distance q cur * cos (angle_key cur prev q - angle_key cur prev p) =
           dot (vec p cur) (vec q cur)"
    unfolding c rp_def rq_def .
qed

text \<open>The key of a candidate, measured from the direction \<open>u\<close> of the last edge.\<close>

lemma angle_key_sin:
  assumes u: "u \<noteq> (0, 0)" and p: "p \<noteq> cur"
  shows "sqrt ((fst u)\<^sup>2 + (snd u)\<^sup>2) * distance p cur *
           sin (angle_key cur (pi - atan2 (snd u) (fst u)) p) = cross u (vec p cur)"
proof -
  define a where "a = Angle p cur"
  define tu where "tu = atan2 (snd u) (fst u)"
  define ru where "ru = sqrt ((fst u)\<^sup>2 + (snd u)\<^sup>2)"
  define rp where "rp = distance p cur"
  have pc: "rp * cos a = - fst (vec p cur)" and ps: "rp * sin a = snd (vec p cur)"
    using distance_polar[OF p] by (simp_all add: a_def rp_def)
  from u have "fst u \<noteq> 0 \<or> snd u \<noteq> 0" by (auto simp: prod_eq_iff)
  from atan2_polar[OF this] have uc: "ru * cos tu = fst u" and us: "ru * sin tu = snd u"
    by (simp_all add: ru_def tu_def)
  have "sin (angle_key cur (pi - tu) p) = sin (pi - tu - a)"
    using angle_key_cases[of cur "pi - tu" p] sin_periodic[of "pi - tu - a"]
    unfolding a_def by auto
  also have "\<dots> = sin (tu + a)" using sin_pi_minus[of "tu + a"] by (simp add: algebra_simps)
  finally have s: "sin (angle_key cur (pi - tu) p) = sin (tu + a)" .
  have "ru * rp * sin (tu + a) = (ru * sin tu) * (rp * cos a) + (ru * cos tu) * (rp * sin a)"
    by (simp add: sin_add algebra_simps)
  also have "\<dots> = cross u (vec p cur)"
    unfolding pc ps uc us by (simp add: cross_def algebra_simps)
  finally have "ru * rp * sin (angle_key cur (pi - tu) p) = cross u (vec p cur)"
    by (simp only: s)
  then show ?thesis unfolding ru_def rp_def tu_def .
qed

lemma distance_sq: "(distance p cur)\<^sup>2 = dot (vec p cur) (vec p cur)"
  by (simp add: distance_def dot_def vec_def power2_eq_square)

lemma vec_eq_iff: "vec p cur = vec q cur \<longleftrightarrow> p = q"
  by (auto simp: vec_def prod_eq_iff)

lemma vec_same:
  assumes "dot (vec p cur) (vec p cur) + dot (vec q cur) (vec q cur) = 2 * dot (vec p cur) (vec q cur)"
  shows "p = q"
proof -
  define a where "a = fst (vec p cur) - fst (vec q cur)"
  define b where "b = snd (vec p cur) - snd (vec q cur)"
  have "a * a + b * b = dot (vec p cur) (vec p cur) + dot (vec q cur) (vec q cur)
      - 2 * dot (vec p cur) (vec q cur)"
    by (simp add: a_def b_def dot_def algebra_simps)
  with assms have "a * a + b * b = 0" by simp
  then have "a = 0 \<and> b = 0" by (simp add: sum_squares_eq_zero_iff)
  then have "vec p cur = vec q cur" by (simp add: a_def b_def prod_eq_iff)
  then show ?thesis by (simp add: vec_eq_iff)
qed

lemma cross_vec_flip: "cross (vec cur c) (vec cur p) = - cross (vec p cur) (vec c cur)"
  by (simp add: cross_def vec_def algebra_simps)

lemma dot_vec_flip: "dot (vec cur p) (vec cur c) = dot (vec p cur) (vec c cur)"
  by (simp add: dot_def vec_def algebra_simps)

lemma dot_vec_flip_self: "dot (vec cur c) (vec cur c) = dot (vec c cur) (vec c cur)"
  by (simp add: dot_def vec_def algebra_simps)

text \<open>When every point of the dataset is a candidate and lies on the right of the last
  edge (or on its line), the first candidate of \<^verbatim>\<open>SortByAngle\<close> leaves every other point of
  the dataset clear of the edge that leads to it.\<close>

lemma first_candidate:
  assumes u: "u \<noteq> (0, 0)"
    and ne: "\<And>p. p \<in> set ds \<Longrightarrow> p \<noteq> cur"
    and right: "\<And>p. p \<in> set ds \<Longrightarrow> cross u (vec cur p) \<le> 0"
    and dsne: "ds \<noteq> []" and kk: "int (length ds) \<le> kk"
    and c: "c = hd (SortByAngle (NearestPoints ds cur kk) cur (pi - atan2 (snd u) (fst u)))"
  shows "c \<in> set ds" and "\<And>p. p \<in> set ds \<Longrightarrow> p \<noteq> c \<Longrightarrow> clear_of cur c p"
proof -
  define prev where "prev = pi - atan2 (snd u) (fst u)"
  define kn where "kn = NearestPoints ds cur kk"
  define key where "key = angle_key cur prev"
  have kn_set: "set kn = set ds" unfolding kn_def by (rule NearestPoints_all[OF kk])
  with dsne have kn_ne: "kn \<noteq> []" by auto
  have kn_sorted: "sorted_wrt (\<lambda>p q. distance p cur \<le> distance q cur) kn"
    unfolding kn_def by (rule NearestPoints_sorted)
  from SortByAngle_hd[OF kn_sorted kn_ne, of prev] have
    cin: "c \<in> set kn" and
    mx: "\<And>p. p \<in> set kn \<Longrightarrow> key p \<le> key c" and
    tie: "\<And>p. p \<in> set kn \<Longrightarrow> key p = key c \<Longrightarrow> distance c cur \<le> distance p cur"
    unfolding c kn_def prev_def key_def by blast+
  from cin kn_set show cds: "c \<in> set ds" by simp
  have pr: "0 \<le> prev" "prev < 2 * pi"
    using atan2_bounds[of "snd u" "fst u"] by (simp_all add: prev_def)
  have ru: "0 < sqrt ((fst u)\<^sup>2 + (snd u)\<^sup>2)"
    using u by (auto simp: prod_eq_iff sum_power2_gt_zero_iff)
  have key_le_pi: "0 \<le> key p \<and> key p \<le> pi" if "p \<in> set ds" for p
  proof -
    from angle_key_range[OF pr] have r: "0 \<le> key p" "key p < 2 * pi" by (simp_all add: key_def)
    have rp: "0 < distance p cur" by (rule distance_polar(3)[OF ne[OF that]])
    have "cross u (vec p cur) = - cross u (vec cur p)" by (simp add: cross_def vec_def algebra_simps)
    with right[OF that] have "0 \<le> cross u (vec p cur)" by simp
    with angle_key_sin[OF u ne[OF that]]
    have "0 \<le> sqrt ((fst u)\<^sup>2 + (snd u)\<^sup>2) * distance p cur * sin (key p)"
      by (simp add: key_def prev_def)
    moreover from ru rp have "0 < sqrt ((fst u)\<^sup>2 + (snd u)\<^sup>2) * distance p cur"
      by (rule mult_pos_pos)
    ultimately have s: "0 \<le> sin (key p)" by (simp only: zero_le_mult_iff) linarith
    have "key p \<le> pi"
    proof (rule ccontr)
      assume "\<not> key p \<le> pi"
      then have "pi < key p" by simp
      from sin_lt_zero[OF this r(2)] s show False by simp
    qed
    with r show ?thesis by simp
  qed
  show "clear_of cur c p" if pds: "p \<in> set ds" and pc: "p \<noteq> c" for p
  proof -
    define x where "x = key c - key p"
    have rp: "0 < distance p cur" by (rule distance_polar(3)[OF ne[OF pds]])
    have rc: "0 < distance c cur" by (rule distance_polar(3)[OF ne[OF cds]])
    from pds kn_set have pkn: "p \<in> set kn" by simp
    from mx[OF pkn] key_le_pi[OF pds] key_le_pi[OF cds] have x: "0 \<le> x" "x \<le> pi"
      by (simp_all add: x_def)
    have sx: "distance p cur * distance c cur * sin x = cross (vec p cur) (vec c cur)"
      and cx: "distance p cur * distance c cur * cos x = dot (vec p cur) (vec c cur)"
      using angle_key_diff[OF ne[OF pds] ne[OF cds], of prev] by (simp_all add: x_def key_def)
    have "0 \<le> sin x" by (rule sin_ge_zero[OF x])
    moreover from rp rc have rr: "0 < distance p cur * distance c cur" by (rule mult_pos_pos)
    ultimately have "0 \<le> distance p cur * distance c cur * sin x" by simp
    with sx have nonneg: "0 \<le> cross (vec p cur) (vec c cur)" by simp
    have on: "dot (vec p cur) (vec c cur) < 0 \<or>
              dot (vec c cur) (vec c cur) < dot (vec p cur) (vec c cur)"
      if z: "cross (vec p cur) (vec c cur) = 0"
    proof -
      from sx z rp rc have "sin x = 0" by simp
      have "x = 0 \<or> x = pi"
      proof (rule ccontr)
        assume "\<not> (x = 0 \<or> x = pi)"
        with x have "0 < x" "x < pi" by simp_all
        from sin_gt_zero[OF this] \<open>sin x = 0\<close> show False by simp
      qed
      then show ?thesis
      proof
        assume "x = pi"
        with cx have "dot (vec p cur) (vec c cur) = - (distance p cur * distance c cur)" by simp
        moreover from rp rc have "0 < distance p cur * distance c cur" by simp
        ultimately show ?thesis by simp
      next
        assume "x = 0"
        with cx have d: "dot (vec p cur) (vec c cur) = distance p cur * distance c cur" by simp
        from \<open>x = 0\<close> have "key p = key c" by (simp add: x_def)
        from tie[OF pkn this] have le: "distance c cur \<le> distance p cur" .
        have "distance c cur \<noteq> distance p cur"
        proof
          assume e: "distance c cur = distance p cur"
          have "dot (vec p cur) (vec p cur) + dot (vec c cur) (vec c cur) =
                2 * dot (vec p cur) (vec c cur)"
            unfolding d distance_sq[symmetric] e by (simp add: power2_eq_square)
          from vec_same[OF this] pc show False by simp
        qed
        with le have "distance c cur < distance p cur" by simp
        with rc have "distance c cur * distance c cur < distance p cur * distance c cur" by simp
        then show ?thesis
          unfolding d using distance_sq[of c cur] by (simp add: power2_eq_square)
      qed
    qed
    have e1: "cross (vec cur c) (vec cur p) = - cross (vec p cur) (vec c cur)"
      by (rule cross_vec_flip)
    have e2: "dot (vec cur p) (vec cur c) = dot (vec p cur) (vec c cur)"
      by (rule dot_vec_flip)
    have e3: "dot (vec cur c) (vec cur c) = dot (vec c cur) (vec c cur)"
      by (rule dot_vec_flip_self)
    from nonneg on show ?thesis
      by (simp only: clear_of_def e1 e2 e3) auto
  qed
qed

subsection \<open>The pass in which every point is a candidate\<close>

lemma edge_loop_clear:
  assumes "\<And>j. j0 \<le> j \<Longrightarrow> j < length h - lp \<Longrightarrow>
      \<not> IntersectsQ (h ! (st - 2), c) (h ! (st - 2 - j), h ! (st - 1 - j))"
  shows "edge_loop h st c lp False j0 = False"
  using assms
proof (induction "length h - lp - j0" arbitrary: j0)
  case 0
  then have "\<not> j0 < length h - lp" by simp
  then show ?case by (subst edge_loop.simps) simp
next
  case (Suc n)
  then have lt: "j0 < length h - lp" by simp
  from Suc.prems[OF order_refl lt]
  have f: "IntersectsQ (h ! (st - 2), c) (h ! (st - 2 - j0), h ! (st - 1 - j0)) = False" by simp
  have n: "n = length h - lp - (j0 + 1)" using Suc.hyps(2) by simp
  have r: "edge_loop h st c lp False (j0 + 1) = False"
  proof (rule Suc.hyps(1)[OF n])
    fix j assume "j0 + 1 \<le> j" "j < length h - lp"
    then show "\<not> IntersectsQ (h ! (st - 2), c) (h ! (st - 2 - j), h ! (st - 1 - j))"
      using Suc.prems[of j] by simp
  qed
  show ?case by (subst edge_loop.simps) (simp only: lt f r simp_thms if_True)
qed

lemma candidate_loop_first:
  assumes "cs \<noteq> []"
    and "edge_loop h st (cs ! 0) (if pointEquals (cs ! 0) fp then 1 else 0) False 2 = False"
  shows "candidate_loop fp h st cs True 0 = (False, 1)"
proof -
  from assms(1) have l: "0 < length cs" by simp
  have s: "candidate_loop fp h st cs False (Suc 0) = (False, Suc 0)"
    by (subst candidate_loop.simps) simp
  show ?thesis
    by (subst candidate_loop.simps) (simp add: assms s Let_def del: pointEquals_iff)
qed

text \<open>The invariant of the pass in which every point of the dataset is a candidate: the
  hull so far is a spiral, every point still to come is clear of every edge laid down.
  \<open>u\<close> is the direction of the last edge, and \<open>(1, 0)\<close> at the start.\<close>

definition spiral_inv :: "point list \<Rightarrow> point list \<Rightarrow> point \<Rightarrow> bool" where
  "spiral_inv ds h u \<longleftrightarrow>
     u \<noteq> (0, 0) \<and> h \<noteq> [] \<and> distinct h \<and> distinct ds \<and> set h \<inter> set ds = {} \<and>
     (\<forall>p\<in>set ds. cross u (vec (last h) p) \<le> 0) \<and>
     (\<forall>i. i + 1 < length h \<longrightarrow>
        (\<forall>p\<in>set ds \<union> set (drop (i + 2) h). clear_of (h ! i) (h ! (i + 1)) p))"

lemma spiral_step:
  assumes inv: "spiral_inv ds h u" and dsne: "ds \<noteq> []" and kk: "int (length ds) \<le> kk"
    and c: "c = hd (SortByAngle (NearestPoints ds (last h) kk) (last h) (pi - atan2 (snd u) (fst u)))"
  shows "c \<in> set ds"
    and "edge_loop h (length h + 1) c lp False 2 = False"
    and "\<And>ds'. RemovePoint ds c = Some ds' \<Longrightarrow> spiral_inv ds' (h @ [c]) (vec (last h) c)"
proof -
  from inv have u: "u \<noteq> (0, 0)" and hne: "h \<noteq> []" and dh: "distinct h" and dd: "distinct ds"
    and disj: "set h \<inter> set ds = {}"
    and right: "\<And>p. p \<in> set ds \<Longrightarrow> cross u (vec (last h) p) \<le> 0"
    and clear: "\<And>i p. i + 1 < length h \<Longrightarrow> p \<in> set ds \<union> set (drop (i + 2) h) \<Longrightarrow>
        clear_of (h ! i) (h ! (i + 1)) p"
    unfolding spiral_inv_def by blast+
  from hne have lasth: "last h \<in> set h" by simp
  have ne: "p \<noteq> last h" if "p \<in> set ds" for p using that lasth disj by auto
  from first_candidate[OF u ne right dsne kk c]
  have cds: "c \<in> set ds" and cc: "\<And>p. p \<in> set ds \<Longrightarrow> p \<noteq> c \<Longrightarrow> clear_of (last h) c p"
    by blast+
  show "c \<in> set ds" by (rule cds)
  show "edge_loop h (length h + 1) c lp False 2 = False"
  proof (rule edge_loop_clear)
    fix j assume j: "2 \<le> j" "j < length h - lp"
    define i where "i = length h - 1 - j"
    from j have i: "i + 2 < length h" "i + j + 1 = length h" by (simp_all add: i_def)
    have idx: "length h + 1 - 2 = length h - 1" "length h - 1 - j = i" "length h + 1 - 1 - j = i + 1"
      using i by simp_all
    have lh: "h ! (length h - 1) = last h" using hne by (simp add: last_conv_nth)
    have "last h \<in> set (drop (i + 2) h)"
      using i hne by (simp add: last_drop[symmetric] del: last_drop)
    then have a: "clear_of (h ! i) (h ! (i + 1)) (last h)" using clear[of i "last h"] i by simp
    have "clear_of (h ! i) (h ! (i + 1)) c" using clear[of i c] i cds by simp
    then have b: "cross (vec (h ! i) (h ! (i + 1))) (vec (h ! i) c) \<le> 0" by (simp add: clear_of_def)
    from getLineLineCollision_clear[OF a b]
    show "\<not> IntersectsQ (h ! (length h + 1 - 2), c) (h ! (length h + 1 - 2 - j), h ! (length h + 1 - 1 - j))"
      by (simp only: idx lh) (simp add: IntersectsQ_def)
  qed
  show "spiral_inv ds' (h @ [c]) (vec (last h) c)" if rp: "RemovePoint ds c = Some ds'" for ds'
  proof -
    from RemovePoint_set[OF rp dd] have sd: "set ds' = set ds - {c}" and dd': "distinct ds'" by simp_all
    from cds ne have cne: "c \<noteq> last h" by simp
    then have u': "vec (last h) c \<noteq> (0, 0)" by (auto simp: vec_def prod_eq_iff)
    from cds disj have cnh: "c \<notin> set h" by auto
    have r': "cross (vec (last h) c) (vec (last (h @ [c])) p) \<le> 0" if "p \<in> set ds'" for p
    proof -
      from that sd have "p \<in> set ds" "p \<noteq> c" by simp_all
      from cc[OF this] have "cross (vec (last h) c) (vec (last h) p) \<le> 0" by (simp add: clear_of_def)
      moreover have "cross (vec (last h) c) (vec c p) = cross (vec (last h) c) (vec (last h) p)"
        by (simp add: cross_def vec_def algebra_simps)
      ultimately show ?thesis by simp
    qed
    have c': "clear_of ((h @ [c]) ! i) ((h @ [c]) ! (i + 1)) p"
      if i: "i + 1 < length (h @ [c])" and p: "p \<in> set ds' \<union> set (drop (i + 2) (h @ [c]))" for i p
    proof (cases "i + 1 < length h")
      case True
      then have e: "(h @ [c]) ! i = h ! i" "(h @ [c]) ! (i + 1) = h ! (i + 1)"
        by (simp_all add: nth_append)
      from True p sd cds have "p \<in> set ds \<union> set (drop (i + 2) h)" by auto
      from clear[OF True this] show ?thesis by (simp only: e)
    next
      case False
      with i have il: "i + 1 = length h" by simp
      then have ii: "i = length h - 1" by simp
      have e: "(h @ [c]) ! i = last h" "(h @ [c]) ! (i + 1) = c"
        using hne il by (simp_all add: nth_append last_conv_nth ii)
      from il p sd have "p \<in> set ds" "p \<noteq> c" by simp_all
      from cc[OF this] show ?thesis by (simp only: e)
    qed
    show ?thesis
      unfolding spiral_inv_def
      using u' dh cnh dd' sd disj r' c' by (intro conjI ballI allI impI) auto
  qed
qed

lemma main_loop_spiral:
  assumes "spiral_inv ds h u" and "hd h = fp" and "length h + length ds < stop"
    and "int (length ds) \<le> kk"
  shows "\<exists>h'. main_loop fp kk stop ds h (last h) (pi - atan2 (snd u) (fst u)) (length h + 1) =
           Closed h' []"
  using assms
proof (induction "length ds" arbitrary: ds h u)
  case 0
  then have "ds = []" by simp
  then show ?case by (subst main_loop.simps) simp
next
  case (Suc n)
  from Suc.hyps(2) have dsne: "ds \<noteq> []" by auto
  from Suc.prems(1) have hne: "h \<noteq> []" and dh: "distinct h" and dd: "distinct ds"
    unfolding spiral_inv_def by blast+
  define prev where "prev = pi - atan2 (snd u) (fst u)"
  define kn where "kn = NearestPoints ds (last h) kk"
  define cs where "cs = SortByAngle kn (last h) prev"
  define c where "c = hd cs"
  have c_eq: "c = hd (SortByAngle (NearestPoints ds (last h) kk) (last h) (pi - atan2 (snd u) (fst u)))"
    by (simp add: c_def cs_def kn_def prev_def)
  note st = spiral_step[OF Suc.prems(1) dsne Suc.prems(4) c_eq]
  have "set cs = set ds" by (simp add: cs_def kn_def NearestPoints_all[OF Suc.prems(4)])
  with dsne have csne: "cs \<noteq> []" by auto
  then have c0: "cs ! 0 = c" by (simp add: c_def hd_conv_nth)
  have cand: "candidate_loop fp h (length h + 1) cs True 0 = (False, 1)"
    by (rule candidate_loop_first[OF csne]) (simp only: c0 st(2))
  from st(1) obtain ds' where rp: "RemovePoint ds c = Some ds'"
    using RemovePoint_Some_iff[of ds c] by blast
  from RemovePoint_length[OF rp] Suc.hyps(2) have len: "n = length ds'" "length ds = Suc (length ds')"
    by simp_all
  have guard: "\<not> pointEquals (last h) fp \<or> length h + 1 = 2"
  proof (cases "last h = fp")
    case True
    with Suc.prems(2) hne have "h ! (length h - 1) = h ! 0"
      by (simp add: last_conv_nth hd_conv_nth)
    with dh hne have "length h - 1 = 0"
      by (simp add: nth_eq_iff_index_eq)
    with hne have "length h = 1" by (cases h) simp_all
    then show ?thesis by simp
  next
    case False
    then show ?thesis by simp
  qed
  have nostop: "length h + 1 \<noteq> stop" using Suc.prems(3) dsne by (cases ds) auto
  have ang: "Angle ((h @ [c]) ! (length h + 1 - 2)) ((h @ [c]) ! (length h + 1 - 1)) =
      pi - atan2 (snd (vec (last h) c)) (fst (vec (last h) c))"
    using hne by (simp add: Angle_eq vec_def nth_append last_conv_nth)
  have unfold: "main_loop fp kk stop ds h (last h) prev (length h + 1) =
      main_loop fp kk stop ds' (h @ [c]) c
        (pi - atan2 (snd (vec (last h) c)) (fst (vec (last h) c))) (length (h @ [c]) + 1)"
  proof -
    have l: "length ds > 0" using dsne by simp
    have c1: "cs ! (1 - 1) = c" using c0 by simp
    show ?thesis
      apply (subst main_loop.simps)
      apply (simp only: guard l nostop simp_thms if_True if_False Let_def
          kn_def[symmetric] cs_def[symmetric] cand prod.case c1 AddPoint_def ang rp option.case)
      apply simp
      done
  qed
  have "\<exists>h'. main_loop fp kk stop ds' (h @ [c]) (last (h @ [c]))
          (pi - atan2 (snd (vec (last h) c)) (fst (vec (last h) c))) (length (h @ [c]) + 1) =
        Closed h' []"
  proof (rule Suc.hyps(1)[OF len(1) st(3)[OF rp]])
    show "hd (h @ [c]) = fp" using hne Suc.prems(2) by simp
    show "length (h @ [c]) + length ds' < stop" using Suc.prems(3) len(2) by simp
    show "int (length ds') \<le> kk" using Suc.prems(4) len(2) by simp
  qed
  then show ?case unfolding prev_def[symmetric] unfold by simp
qed

subsection \<open>Every chain of retries ends\<close>

lemma fold_max_ge_all: "y \<in> set xs \<Longrightarrow> (y::real) \<le> fold max xs x"
proof (induction xs arbitrary: x)
  case Nil
  then show ?case by simp
next
  case (Cons z zs)
  show ?case
  proof (cases "y = z")
    case True
    have "z \<le> max z x" by simp
    also have "\<dots> \<le> fold max zs (max z x)" by (rule fold_max_ge)
    finally show ?thesis using True by simp
  next
    case False
    with Cons.prems have "y \<in> set zs" by simp
    from Cons.IH[OF this] show ?thesis by simp
  qed
qed

lemma indexOf_SomeD: "indexOf xs v = Some i \<Longrightarrow> i < length xs \<and> xs ! i = v"
proof (induction xs arbitrary: i)
  case Nil
  then show ?case by simp
next
  case (Cons x xs)
  show ?case
  proof (cases "x = v")
    case True
    with Cons.prems show ?thesis by simp
  next
    case False
    with Cons.prems obtain j where j: "indexOf xs v = Some j" "i = Suc j" by auto
    from Cons.IH[OF j(1)] j(2) show ?thesis by simp
  qed
qed

lemma FindMinYPoint_max:
  assumes "FindMinYPoint points = Some i"
  shows "i < length points \<and> (\<forall>p\<in>set points. snd p \<le> snd (points ! i))"
proof -
  from assms obtain p ps where points: "points = p # ps"
    by (cases points) (simp_all add: FindMinYPoint_def arrayColumn1_def)
  define m where "m = fold max (map snd ps) (snd p)"
  from assms have "indexOf (map snd points) m = Some i"
    by (simp add: FindMinYPoint_def arrayColumn1_def points m_def)
  from indexOf_SomeD[OF this] have i: "i < length points" and mi0: "map snd points ! i = m"
    by simp_all
  from nth_map[OF i, of snd] mi0 have mi: "snd (points ! i) = m" by simp
  have "snd q \<le> m" if "q \<in> set points" for q
  proof (cases "q = p")
    case True
    then show ?thesis unfolding m_def by (simp add: fold_max_ge)
  next
    case False
    with that have "snd q \<in> set (map snd ps)" by (simp add: points)
    then show ?thesis unfolding m_def by (rule fold_max_ge_all)
  qed
  with i mi show ?thesis by simp
qed

text \<open>\<^verbatim>\<open>RemovePoint\<close> is always asked for a point of the dataset, so the loop never goes on
  with \<^verbatim>\<open>undefined\<close>.\<close>

lemma main_loop_not_NoDataset:
  "main_loop fp kk stop ds h cur prev step \<noteq> NoDataset"
proof (induction fp kk stop ds h cur prev step rule: main_loop.induct)
  case (1 fp kk stop ds h cur prev step)
  show ?case
  proof (cases "(\<not> pointEquals cur fp \<or> step = 2) \<and> 0 < length ds")
    case True
    let ?ds1 = "if step = stop then AddPoint ds fp else ds"
    let ?cs = "SortByAngle (NearestPoints ?ds1 cur kk) cur prev"
    obtain b i where cl: "candidate_loop fp h step ?cs True 0 = (b, i)" by fastforce
    have css: "set ?cs \<subseteq> set ?ds1" using set_NearestPoints by simp
    let ?c = "?cs ! (i - 1)"
    let ?h1 = "AddPoint h ?c"
    have unf: "main_loop fp kk stop ds h cur prev step =
      (if b = True then Intersecting
       else case RemovePoint ?ds1 ?c of
              None \<Rightarrow> NoDataset
            | Some ds2 \<Rightarrow>
                main_loop fp kk stop ds2 ?h1 ?c (Angle (?h1 ! (step - 2)) (?h1 ! (step - 1))) (step + 1))"
      by (subst main_loop.simps) (simp only: True cl Let_def if_True prod.case simp_thms)
    show ?thesis
    proof (cases b)
      case True
      then show ?thesis unfolding unf by simp
    next
      case False
      then have nb: "b = False" by simp
      from candidate_loop_False[OF cl[unfolded nb]] have i: "0 < i" "i \<le> length ?cs" by auto
      then have "i - 1 < length ?cs" by arith
      then have "?c \<in> set ?cs" by (rule nth_mem)
      with css have "?c \<in> set ?ds1" by blast
      then obtain ds2 where rp: "RemovePoint ?ds1 ?c = Some ds2"
        using RemovePoint_Some_iff[of ?ds1 ?c] by blast
      have nb': "b \<noteq> True" using nb by simp
      have "main_loop fp kk stop ds2 ?h1 ?c (Angle (?h1 ! (step - 2)) (?h1 ! (step - 1))) (step + 1)
              \<noteq> NoDataset"
        by (rule "1.IH"[OF True refl refl refl refl cl[symmetric] nb' refl refl refl rp])
      then show ?thesis unfolding unf by (simp only: nb rp option.case if_False simp_thms)
    qed
  next
    case False
    have "main_loop fp kk stop ds h cur prev step = Closed h ds"
      by (subst main_loop.simps) (simp only: False if_False)
    then show ?thesis by simp
  qed
qed

lemma calculate_pass_not_Failed:
  assumes "D \<noteq> []"
  shows "calculate_pass D kk \<noteq> Failed"
proof -
  from FindMinYPoint_Some[OF assms] obtain i where i: "FindMinYPoint D = Some i" "i < length D"
    by blast
  then have "D ! i \<in> set D" by simp
  then obtain ds0 where ds0: "RemovePoint D (D ! i) = Some ds0"
    using RemovePoint_Some_iff[of D "D ! i"] by blast
  let ?ml = "main_loop (D ! i) kk (2 + nat kk) ds0 [D ! i] (D ! i) pi 2"
  have unf: "calculate_pass D kk =
    (case ?ml of Intersecting \<Rightarrow> Retry | NoDataset \<Rightarrow> Failed
     | Closed hullv dataset \<Rightarrow>
         (let allInside = allInside_loop dataset hullv True (int (length dataset) - 1)
          in if allInside = False then Retry else Found hullv))"
    by (simp add: calculate_pass_def i ds0 Let_def AddPoint_def)
  have "?ml \<noteq> NoDataset" by (rule main_loop_not_NoDataset)
  then show ?thesis unfolding unf by (cases ?ml) (simp_all add: Let_def)
qed

text \<open>The pass with the largest neighbour count a dataset admits always finds a hull.\<close>

lemma calculate_pass_last:
  assumes dist: "distinct D" and ne: "D \<noteq> []"
  shows "\<exists>h. calculate_pass D (int (length D) - 1) = Found h"
proof -
  define kk where "kk = int (length D) - 1"
  from FindMinYPoint_Some[OF ne] obtain i where i: "FindMinYPoint D = Some i" by blast
  from FindMinYPoint_max[OF i] have il: "i < length D"
    and mx: "\<And>p. p \<in> set D \<Longrightarrow> snd p \<le> snd (D ! i)" by simp_all
  define fp where "fp = D ! i"
  from il have fpD: "fp \<in> set D" by (simp add: fp_def)
  then obtain ds0 where ds0: "RemovePoint D fp = Some ds0"
    using RemovePoint_Some_iff[of D fp] by blast
  from RemovePoint_set[OF ds0 dist] have r: "set ds0 = set D - {fp}" "distinct ds0" by simp_all
  from RemovePoint_length[OF ds0] have len: "length D = Suc (length ds0)" by simp
  let ?ml = "main_loop fp kk (2 + nat kk) ds0 [fp] fp pi 2"
  have unf: "calculate_pass D kk =
    (case ?ml of Intersecting \<Rightarrow> Retry | NoDataset \<Rightarrow> Failed
     | Closed hullv dataset \<Rightarrow>
         (let allInside = allInside_loop dataset hullv True (int (length dataset) - 1)
          in if allInside = False then Retry else Found hullv))"
    using ds0 by (simp add: calculate_pass_def i fp_def[symmetric] Let_def AddPoint_def)
  have inv: "spiral_inv ds0 [fp] (1, 0)"
  proof -
    have "cross (1, 0) (vec (last [fp]) p) \<le> 0" if "p \<in> set ds0" for p
    proof -
      from that r have "p \<in> set D" by simp
      from mx[OF this] show ?thesis by (simp add: cross_def vec_def fp_def)
    qed
    with r show ?thesis by (simp add: spiral_inv_def)
  qed
  have ex: "\<exists>h'. main_loop fp kk (2 + nat kk) ds0 [fp] (last [fp])
      (pi - atan2 (snd (1::real, 0::real)) (fst (1::real, 0::real))) (length [fp] + 1) = Closed h' []"
    by (rule main_loop_spiral[OF inv]) (simp_all add: kk_def len)
  have e: "main_loop fp kk (2 + nat kk) ds0 [fp] (last [fp])
      (pi - atan2 (snd (1::real, 0::real)) (fst (1::real, 0::real))) (length [fp] + 1) = ?ml"
  proof -
    have a: "pi - atan2 (snd (1::real, 0::real)) (fst (1::real, 0::real)) = pi"
      by (simp add: atan2_def)
    have b: "length [fp] + 1 = 2" by simp
    have c: "last [fp] = fp" by simp
    show ?thesis by (simp only: a b c)
  qed
  from ex obtain h' where ml: "?ml = Closed h' []" unfolding e by blast
  have ai: "allInside_loop [] h' True (- 1) = True"
    by (subst allInside_loop.simps) simp
  have "calculate_pass D kk = Found h'"
    unfolding unf ml by (simp add: ai)
  then show ?thesis unfolding kk_def by blast
qed

lemma calculate_total_aux:
  assumes n: "4 \<le> length (CleanList pointsList)"
    and guard: "\<not> int (length pointsList) \<le> max k 3"
  shows "\<exists>r. calculate pointsList k = Some r \<and> (\<exists>h. r = Hull h)"
  using guard
proof (induction "nat (int (length (CleanList pointsList)) - 1 - max k 3)" arbitrary: k
       rule: less_induct)
  case less
  let ?D = "CleanList pointsList"
  let ?kk = "min (max k 3) (int (length ?D) - 1)"
  have g: "\<not> max k 3 \<ge> int (length pointsList)" using less.prems by simp
  note unf = calculate_unfold_general[OF g n]
  have Dne: "?D \<noteq> []" using n by auto
  show ?case
  proof (cases "calculate_pass ?D ?kk")
    case (Found h)
    then show ?thesis unfolding unf by simp
  next
    case Failed
    with calculate_pass_not_Failed[OF Dne] show ?thesis by simp
  next
    case Retry
    from calculate_pass_last[OF distinct_CleanList Dne] Retry
    have "?kk \<noteq> int (length ?D) - 1" by auto
    then have lt: "max k 3 < int (length ?D) - 1" and kk: "?kk = max k 3" by linarith+
    have m: "max (max k 3 + 1) 3 = max k 3 + 1" by simp
    have g': "\<not> int (length pointsList) \<le> max (max k 3 + 1) 3"
      using lt length_CleanList_le[of pointsList] unfolding m by linarith
    have dec: "nat (int (length ?D) - 1 - max (max k 3 + 1) 3) < nat (int (length ?D) - 1 - max k 3)"
      using lt unfolding m by linarith
    from Retry have R: "calculate_pass ?D (max k 3) = Retry" by (simp only: kk)
    from less.hyps[OF dec g'] show ?thesis
      unfolding unf by (simp only: kk R attempt.case)
  qed
qed

text \<open>
  Under these two conditions every call returns, and what it returns is \<^verbatim>\<open>null\<close> or a hull
  (never the \<^verbatim>\<open>TypeError\<close> of a dataset gone \<^verbatim>\<open>undefined\<close>).
\<close>

lemma calculate_total_exact:
  "\<exists>r. calculate pointsList k = Some r \<and> (r = Null \<or> (\<exists>h. r = Hull h))"
proof (cases "int (length pointsList) \<le> max k 3")
  case True
  then have "calculate pointsList k = Some Null"
    by (subst calculate.simps) (simp add: Let_def)
  then show ?thesis by simp
next
  case guard: False
  show ?thesis
  proof (cases "length (CleanList pointsList) < 3")
    case True
    with guard have "calculate pointsList k = Some Null"
      by (subst calculate.simps) (simp add: Let_def)
    then show ?thesis by simp
  next
    case n3: False
    show ?thesis
    proof (cases "length (CleanList pointsList) = 3")
      case True
      with guard have "calculate pointsList k = Some (Hull (CleanList pointsList))"
        by (subst calculate.simps) (simp add: Let_def)
      then show ?thesis by simp
    next
      case False
      with n3 have "4 \<le> length (CleanList pointsList)" by simp
      from calculate_total_aux[OF this guard] show ?thesis by blast
    qed
  qed
qed


section \<open>The escalation with the engine's sort\<close>

text \<open>
  Both comparators return \<open>-1\<close> or \<open>1\<close>, never \<open>0\<close>, so where two keys are equal the order
  of the result is the engine's choice. Here \<^verbatim>\<open>Array.prototype.sort\<close> is the parameter \<open>sort_fn\<close> of the
  algorithm; everything else is as above.
\<close>

type_synonym sorter =
  "((point \<times> real) \<Rightarrow> (point \<times> real) \<Rightarrow> int) \<Rightarrow> (point \<times> real) list \<Rightarrow> (point \<times> real) list"

definition NearestPoints_by :: "sorter \<Rightarrow> point list \<Rightarrow> point \<Rightarrow> int \<Rightarrow> point list" where
  "NearestPoints_by sort_fn points point k =
     (let candidates = map (\<lambda>p. (p, distance p point)) points;
          candidates = sort_fn (\<lambda>a b. if snd a > snd b then 1 else -1) candidates;
          k = min k (int (length candidates))
      in map fst (take (nat k) candidates))"

definition SortByAngle_by :: "sorter \<Rightarrow> point list \<Rightarrow> point \<Rightarrow> real \<Rightarrow> point list" where
  "SortByAngle_by sort_fn points point prev_angle =
     (let candidates =
            map (\<lambda>p. let angle = prev_angle - Angle p point
                      in (p, if angle < 0 then angle + 2 * pi else angle)) points;
          candidates = sort_fn (\<lambda>a b. if snd a > snd b then -1 else 1) candidates
      in map fst candidates)"

function main_loop_by ::
  "sorter \<Rightarrow> point \<Rightarrow> int \<Rightarrow> nat \<Rightarrow> point list \<Rightarrow> point list \<Rightarrow> point \<Rightarrow> real \<Rightarrow> nat
     \<Rightarrow> loop_exit" where
  "main_loop_by sort_fn firstPoint kk stop dataset hullv currentPoint previousAngle step =
     (if (\<not> pointEquals currentPoint firstPoint \<or> step = 2) \<and> length dataset > 0 then
        let dataset = (if step = stop then AddPoint dataset firstPoint else dataset);
            kNearestPoints = NearestPoints_by sort_fn dataset currentPoint kk;
            cPoints = SortByAngle_by sort_fn kNearestPoints currentPoint previousAngle;
            (intersects, i) = candidate_loop firstPoint hullv step cPoints True 0
        in if intersects = True then Intersecting
           else
             let currentPoint = cPoints ! (i - 1);
                 hullv = AddPoint hullv currentPoint;
                 previousAngle = Angle (hullv ! (step - 2)) (hullv ! (step - 1))
             in case RemovePoint dataset currentPoint of
                  None \<Rightarrow> NoDataset
                | Some dataset \<Rightarrow>
                    main_loop_by sort_fn firstPoint kk stop dataset hullv currentPoint previousAngle
                      (step + 1)
      else Closed hullv dataset)"
  by pat_completeness auto
termination
  apply (relation "measure (\<lambda>(sort_fn, firstPoint, kk, stop, dataset, hullv, currentPoint, previousAngle, step).
        2 * length dataset + (if step \<le> stop then 1 else 0))")
   apply simp
  apply (drule RemovePoint_length)
  apply (simp add: AddPoint_def split: if_splits)
  done

definition calculate_pass_by :: "sorter \<Rightarrow> point list \<Rightarrow> int \<Rightarrow> attempt" where
  "calculate_pass_by sort_fn dataset kk =
     (case FindMinYPoint dataset of
        None \<Rightarrow> Failed
      | Some firstPointId \<Rightarrow>
          (let firstPoint = dataset ! firstPointId;
               hullv = AddPoint [] (dataset ! firstPointId);
               currentPoint = firstPoint
           in (case RemovePoint dataset firstPoint of
                 None \<Rightarrow> Failed
               | Some dataset \<Rightarrow>
                   (let previousAngle = pi;
                        step = 2;
                        stop = step + nat kk
                    in (case main_loop_by sort_fn firstPoint kk stop dataset hullv currentPoint
                               previousAngle step of
                          Intersecting \<Rightarrow> Retry
                        | NoDataset \<Rightarrow> Failed
                        | Closed hullv dataset \<Rightarrow>
                            (let allInside =
                                   allInside_loop dataset hullv True (int (length dataset) - 1)
                             in if allInside = False then Retry else Found hullv))))))"

partial_function (option) calculate_by :: "sorter \<Rightarrow> point list \<Rightarrow> int \<Rightarrow> result option" where
  "calculate_by sort_fn pointsList k =
     (let kk = max k 3
      in if kk \<ge> int (length pointsList) then Some Null
         else
           let dataset = CleanList pointsList
           in if length dataset < 3 then Some Null
              else if length dataset = 3 then Some (Hull dataset)
              else
                let kk = min kk (int (length dataset) - 1)
                in case calculate_pass_by sort_fn dataset kk of
                     Retry \<Rightarrow> calculate_by sort_fn pointsList (kk + 1)
                   | Failed \<Rightarrow> Some Thrown
                   | Found hullv \<Rightarrow> Some (Hull hullv))"

text \<open>Insertion from the right, the sort of V8 before version 7.0 for arrays of at most ten
  elements (\<^verbatim>\<open>InsertionSort\<close>): the new element moves left past every element \<open>tmp\<close> with
  \<^verbatim>\<open>comparefn(tmp, element) > 0\<close>. The part already sorted is held last element first.\<close>

fun insert_right :: "('a \<Rightarrow> 'a \<Rightarrow> int) \<Rightarrow> 'a \<Rightarrow> 'a list \<Rightarrow> 'a list" where
  "insert_right compare element [] = [element]"
| "insert_right compare element (tmp # rest) =
     (if compare tmp element > 0 then tmp # insert_right compare element rest
      else element # tmp # rest)"

definition array_sort_right :: "('a \<Rightarrow> 'a \<Rightarrow> int) \<Rightarrow> 'a list \<Rightarrow> 'a list" where
  "array_sort_right compare xs = rev (foldl (\<lambda>acc x. insert_right compare x acc) [] xs)"

declare main_loop_by.simps [simp del]

lemma calculate_by_unfold_general:
  assumes "\<not> max k 3 \<ge> int (length pointsList)" and "4 \<le> length (CleanList pointsList)"
  shows "calculate_by sort_fn pointsList k =
    (case calculate_pass_by sort_fn (CleanList pointsList)
            (min (max k 3) (int (length (CleanList pointsList)) - 1)) of
       Retry \<Rightarrow> calculate_by sort_fn pointsList
                  (min (max k 3) (int (length (CleanList pointsList)) - 1) + 1)
     | Failed \<Rightarrow> Some Thrown
     | Found hullv \<Rightarrow> Some (Hull hullv))"
  using assms by (subst calculate_by.simps) (simp add: Let_def)

lemma calculate_by_stuck_aux:
  assumes ret: "calculate_by sort_fn pointsList k = Some r"
    and n: "4 \<le> length (CleanList pointsList)"
    and rep: "length (CleanList pointsList) < length pointsList"
    and pass: "calculate_pass_by sort_fn (CleanList pointsList)
                 (int (length (CleanList pointsList)) - 1) = Retry"
  shows "\<not> (int (length (CleanList pointsList)) - 1 \<le> max k 3 \<and> max k 3 < int (length pointsList))"
proof -
  let ?n = "int (length (CleanList pointsList))"
  have "\<not> (s = sort_fn \<and> p = pointsList \<and> ?n - 1 \<le> max k' 3 \<and> max k' 3 < int (length pointsList))"
    if "calculate_by s p k' = Some r'" for s p k' r'
    using that
  proof (rule calculate_by.raw_induct[rotated])
    fix calc :: "sorter \<Rightarrow> point list \<Rightarrow> int \<Rightarrow> result option" and s p k' r'
    assume IH: "\<And>s p k' r'. calc s p k' = Some r' \<Longrightarrow>
        \<not> (s = sort_fn \<and> p = pointsList \<and> ?n - 1 \<le> max k' 3 \<and> max k' 3 < int (length pointsList))"
    assume step: "(let kk = max k' 3
      in if int (length p) \<le> kk then Some Null
         else let dataset = CleanList p
              in if length dataset < 3 then Some Null
                 else if length dataset = 3 then Some (Hull dataset)
                      else let kk = min kk (int (length dataset) - 1)
                           in case calculate_pass_by s dataset kk of
                              Retry \<Rightarrow> calc s p (kk + 1)
                              | Found hullv \<Rightarrow> Some (Hull hullv)
                              | Failed \<Rightarrow> Some Thrown) = Some r'"
    show "\<not> (s = sort_fn \<and> p = pointsList \<and> ?n - 1 \<le> max k' 3 \<and> max k' 3 < int (length pointsList))"
    proof
      assume a: "s = sort_fn \<and> p = pointsList \<and> ?n - 1 \<le> max k' 3 \<and> max k' 3 < int (length pointsList)"
      then have kk: "min (max k' 3) (?n - 1) = ?n - 1" by linarith
      from a have g1: "\<not> int (length pointsList) \<le> max k' 3" by linarith
      from n have g2: "\<not> length (CleanList pointsList) < 3"
        "length (CleanList pointsList) \<noteq> 3" by simp_all
      note g = g1 g2
      from a have sp: "s = sort_fn" "p = pointsList" by simp_all
      from step have "calc sort_fn pointsList (?n - 1 + 1) = Some r'"
        unfolding sp by (simp only: Let_def g if_False kk pass attempt.case)
      from IH[OF this] n rep show False by simp
    qed
  qed
  from this[OF ret] show ?thesis by simp
qed

text \<open>With the sort of the model the parameterised algorithm is the algorithm above.\<close>

lemma NearestPoints_by_array_sort: "NearestPoints_by array_sort = NearestPoints"
  by (intro ext) (simp add: NearestPoints_by_def NearestPoints_def)

lemma SortByAngle_by_array_sort: "SortByAngle_by array_sort = SortByAngle"
  by (intro ext) (simp add: SortByAngle_by_def SortByAngle_def)

lemma main_loop_by_array_sort:
  "main_loop_by array_sort fp kk stop ds h cur prev step = main_loop fp kk stop ds h cur prev step"
proof (induction fp kk stop ds h cur prev step rule: main_loop.induct)
  case (1 fp kk stop ds h cur prev step)
  show ?case
  proof (cases "(\<not> pointEquals cur fp \<or> step = 2) \<and> 0 < length ds")
    case True
    let ?ds1 = "if step = stop then AddPoint ds fp else ds"
    let ?cs = "SortByAngle (NearestPoints ?ds1 cur kk) cur prev"
    obtain b i where cl: "candidate_loop fp h step ?cs True 0 = (b, i)" by fastforce
    let ?c = "?cs ! (i - 1)"
    let ?h1 = "AddPoint h ?c"
    have unf: "main_loop fp kk stop ds h cur prev step =
      (if b = True then Intersecting
       else case RemovePoint ?ds1 ?c of
              None \<Rightarrow> NoDataset
            | Some ds2 \<Rightarrow>
                main_loop fp kk stop ds2 ?h1 ?c (Angle (?h1 ! (step - 2)) (?h1 ! (step - 1))) (step + 1))"
      by (subst main_loop.simps) (simp only: True cl Let_def if_True prod.case simp_thms)
    have unf_by: "main_loop_by array_sort fp kk stop ds h cur prev step =
      (if b = True then Intersecting
       else case RemovePoint ?ds1 ?c of
              None \<Rightarrow> NoDataset
            | Some ds2 \<Rightarrow>
                main_loop_by array_sort fp kk stop ds2 ?h1 ?c
                  (Angle (?h1 ! (step - 2)) (?h1 ! (step - 1))) (step + 1))"
      by (subst main_loop_by.simps)
        (simp only: True cl Let_def if_True prod.case simp_thms
           NearestPoints_by_array_sort SortByAngle_by_array_sort)
    show ?thesis
    proof (cases b)
      case True
      then show ?thesis unfolding unf unf_by by simp
    next
      case False
      then have nb: "b \<noteq> True" by simp
      show ?thesis
      proof (cases "RemovePoint ?ds1 ?c")
        case None
        then show ?thesis unfolding unf unf_by by simp
      next
        case (Some ds2)
        have "main_loop_by array_sort fp kk stop ds2 ?h1 ?c
                (Angle (?h1 ! (step - 2)) (?h1 ! (step - 1))) (step + 1) =
              main_loop fp kk stop ds2 ?h1 ?c (Angle (?h1 ! (step - 2)) (?h1 ! (step - 1))) (step + 1)"
          by (rule "1.IH"[OF True refl refl refl refl cl[symmetric] nb refl refl refl Some])
        then show ?thesis unfolding unf unf_by by (simp only: Some option.case)
      qed
    qed
  next
    case False
    have "main_loop fp kk stop ds h cur prev step = Closed h ds"
      by (subst main_loop.simps) (simp only: False if_False)
    moreover have "main_loop_by array_sort fp kk stop ds h cur prev step = Closed h ds"
      by (subst main_loop_by.simps) (simp only: False if_False)
    ultimately show ?thesis by simp
  qed
qed

lemma calculate_pass_by_array_sort: "calculate_pass_by array_sort D kk = calculate_pass D kk"
proof -
  have eq: "main_loop_by array_sort = main_loop"
    by (intro ext) (rule main_loop_by_array_sort)
  show ?thesis unfolding calculate_pass_by_def calculate_pass_def eq ..
qed

lemma calculate_by_of_calculate:
  assumes "calculate pointsList k = Some r"
  shows "calculate_by array_sort pointsList k = Some r"
proof (rule calculate.raw_induct[OF _ assms])
  fix calc :: "point list \<Rightarrow> int \<Rightarrow> result option" and pointsList k r
  assume IH: "\<And>pts k r. calc pts k = Some r \<Longrightarrow> calculate_by array_sort pts k = Some r"
  assume step: "(let kk = max k 3
      in if int (length pointsList) \<le> kk then Some Null
         else let dataset = CleanList pointsList
              in if length dataset < 3 then Some Null
                 else if length dataset = 3 then Some (Hull dataset)
                      else let kk = min kk (int (length dataset) - 1)
                           in case calculate_pass dataset kk of
                              Retry \<Rightarrow> calc pointsList (kk + 1)
                              | Found hullv \<Rightarrow> Some (Hull hullv)
                              | Failed \<Rightarrow> Some Thrown) = Some r"
  let ?D = "CleanList pointsList"
  let ?kk = "min (max k 3) (int (length ?D) - 1)"
  show "calculate_by array_sort pointsList k = Some r"
  proof (cases "calculate_pass ?D ?kk = Retry \<and> \<not> int (length pointsList) \<le> max k 3 \<and> 4 \<le> length ?D")
    case True
    with step have "calc pointsList (?kk + 1) = Some r" by (simp add: Let_def)
    from IH[OF this] True show ?thesis
      by (subst calculate_by.simps) (simp add: Let_def calculate_pass_by_array_sort)
  next
    case False
    with step show ?thesis
      by (subst calculate_by.simps)
        (auto simp: Let_def calculate_pass_by_array_sort split: if_splits attempt.splits)
  qed
qed

lemma calculate_of_calculate_by_aux:
  assumes "calculate_by sort_fn pointsList k = Some r"
  shows "sort_fn = array_sort \<longrightarrow> calculate pointsList k = Some r"
proof (rule calculate_by.raw_induct[OF _ assms])
  fix calc :: "sorter \<Rightarrow> point list \<Rightarrow> int \<Rightarrow> result option" and sort_fn pointsList k r
  assume IH: "\<And>s pts k r. calc s pts k = Some r \<Longrightarrow> s = array_sort \<longrightarrow> calculate pts k = Some r"
  assume step: "(let kk = max k 3
      in if int (length pointsList) \<le> kk then Some Null
         else let dataset = CleanList pointsList
              in if length dataset < 3 then Some Null
                 else if length dataset = 3 then Some (Hull dataset)
                      else let kk = min kk (int (length dataset) - 1)
                           in case calculate_pass_by sort_fn dataset kk of
                              Retry \<Rightarrow> calc sort_fn pointsList (kk + 1)
                              | Found hullv \<Rightarrow> Some (Hull hullv)
                              | Failed \<Rightarrow> Some Thrown) = Some r"
  let ?D = "CleanList pointsList"
  let ?kk = "min (max k 3) (int (length ?D) - 1)"
  show "sort_fn = array_sort \<longrightarrow> calculate pointsList k = Some r"
  proof
    assume s: "sort_fn = array_sort"
    show "calculate pointsList k = Some r"
    proof (cases "calculate_pass ?D ?kk = Retry \<and> \<not> int (length pointsList) \<le> max k 3 \<and> 4 \<le> length ?D")
      case True
      with step s have "calc array_sort pointsList (?kk + 1) = Some r"
        by (simp add: Let_def calculate_pass_by_array_sort)
      from IH[OF this] True show ?thesis
        by (subst calculate.simps) (simp add: Let_def)
    next
      case False
      with step s show ?thesis
        by (subst calculate.simps)
          (auto simp: Let_def calculate_pass_by_array_sort split: if_splits attempt.splits)
    qed
  qed
qed

lemma calculate_by_array_sort: "calculate_by array_sort pointsList k = calculate pointsList k"
proof (cases "calculate pointsList k")
  case (Some r)
  with calculate_by_of_calculate[OF Some] show ?thesis by simp
next
  case None
  show ?thesis
  proof (cases "calculate_by array_sort pointsList k")
    case None
    with \<open>calculate pointsList k = None\<close> show ?thesis by simp
  next
    case (Some r)
    from calculate_of_calculate_by_aux[OF Some] None show ?thesis by simp
  qed
qed

subsection \<open>Five points, one of them twice, and insertion from the right\<close>

lemma r5_arctan:
  "0 < arctan (1 / 2)"
  "arctan (1 / 2) < pi / 4"
  "pi / 4 < arctan (4 / 3)"
  "arctan (4 / 3) < arctan 2"
  "arctan 2 < arctan 4"
  "arctan 4 < pi / 2"
  "2 \<le> pi"
  using arctan_less_iff[of "0" "1 / 2"]
    arctan_less_iff[of "1 / 2" "1"]
    arctan_less_iff[of "1" "4 / 3"]
    arctan_less_iff[of "4 / 3" "2"]
    arctan_less_iff[of "2" "4"]
    arctan_ubound[of "4"]
    arctan_one pi_ge_two
  by simp_all

lemma r5_k4_seed: "FindMinYPoint [(-2, 2), (1, -2), (2, 2), (3, 2), (2, 0)] = Some 0"
  by (simp add: FindMinYPoint_def arrayColumn1_def)

lemma r5_k4_s2_near: "NearestPoints_by array_sort_right [(1, -2), (2, 2), (3, 2), (2, 0)] (-2, 2) 4 = [(2, 2), (2, 0), (1, -2), (3, 2)]"
  by (simp add: NearestPoints_by_def array_sort_right_def distance_less_iff Let_def)

lemma r5_k4_s2_sort: "SortByAngle_by array_sort_right [(2, 2), (2, 0), (1, -2), (3, 2)] (-2, 2) (pi) = [(3, 2), (2, 2), (2, 0), (1, -2)]"
  using r5_arctan
  by (simp add: SortByAngle_by_def array_sort_right_def Angle_def atan2_def Let_def arctan_minus arctan_one
       del: zero_less_arctan_iff arctan_less_zero_iff zero_le_arctan_iff arctan_le_zero_iff)

lemma r5_k4_s2_cand: "candidate_loop (-2, 2) [(-2, 2)] 2 [(3, 2), (2, 2), (2, 0), (1, -2)] True 0 = (False, 1)"
  by (simp add: candidate_loop.simps edge_loop.simps IntersectsQ_def getLineLineCollision_def Let_def)

lemma r5_k4_s2_angle: "Angle (-2, 2) (3, 2) = pi"
  using r5_arctan
  by (simp add: Angle_def atan2_def Let_def arctan_minus arctan_one
       del: zero_less_arctan_iff arctan_less_zero_iff zero_le_arctan_iff arctan_le_zero_iff)

lemma r5_k4_s2_loop: "main_loop_by array_sort_right (-2, 2) 4 6 [(1, -2), (2, 2), (3, 2), (2, 0)] [(-2, 2)] (-2, 2) (pi) 2 =
    main_loop_by array_sort_right (-2, 2) 4 6 [(1, -2), (2, 2), (2, 0)] [(-2, 2), (3, 2)] (3, 2) (pi) 3"
  by (subst main_loop_by.simps) (simp add: r5_k4_s2_near r5_k4_s2_sort r5_k4_s2_cand r5_k4_s2_angle AddPoint_def Let_def)

lemma r5_k4_s3_near: "NearestPoints_by array_sort_right [(1, -2), (2, 2), (2, 0)] (3, 2) 4 = [(2, 2), (2, 0), (1, -2)]"
  by (simp add: NearestPoints_by_def array_sort_right_def distance_less_iff Let_def)

lemma r5_k4_s3_sort: "SortByAngle_by array_sort_right [(2, 2), (2, 0), (1, -2)] (3, 2) (pi) = [(1, -2), (2, 0), (2, 2)]"
  using r5_arctan
  by (simp add: SortByAngle_by_def array_sort_right_def Angle_def atan2_def Let_def arctan_minus arctan_one
       del: zero_less_arctan_iff arctan_less_zero_iff zero_le_arctan_iff arctan_le_zero_iff)

lemma r5_k4_s3_cand: "candidate_loop (-2, 2) [(-2, 2), (3, 2)] 3 [(1, -2), (2, 0), (2, 2)] True 0 = (False, 1)"
  by (simp add: candidate_loop.simps edge_loop.simps IntersectsQ_def getLineLineCollision_def Let_def)

lemma r5_k4_s3_angle: "Angle (3, 2) (1, -2) = 2 * pi - arctan 2"
  using r5_arctan
  by (simp add: Angle_def atan2_def Let_def arctan_minus arctan_one
       del: zero_less_arctan_iff arctan_less_zero_iff zero_le_arctan_iff arctan_le_zero_iff)

lemma r5_k4_s3_loop: "main_loop_by array_sort_right (-2, 2) 4 6 [(1, -2), (2, 2), (2, 0)] [(-2, 2), (3, 2)] (3, 2) (pi) 3 =
    main_loop_by array_sort_right (-2, 2) 4 6 [(2, 2), (2, 0)] [(-2, 2), (3, 2), (1, -2)] (1, -2) (2 * pi - arctan 2) 4"
  by (subst main_loop_by.simps) (simp add: r5_k4_s3_near r5_k4_s3_sort r5_k4_s3_cand r5_k4_s3_angle AddPoint_def Let_def)

lemma r5_k4_s4_near: "NearestPoints_by array_sort_right [(2, 2), (2, 0)] (1, -2) 4 = [(2, 0), (2, 2)]"
  by (simp add: NearestPoints_by_def array_sort_right_def distance_less_iff Let_def)

lemma r5_k4_s4_sort: "SortByAngle_by array_sort_right [(2, 0), (2, 2)] (1, -2) (2 * pi - arctan 2) = [(2, 2), (2, 0)]"
  using r5_arctan
  by (simp add: SortByAngle_by_def array_sort_right_def Angle_def atan2_def Let_def arctan_minus arctan_one
       del: zero_less_arctan_iff arctan_less_zero_iff zero_le_arctan_iff arctan_le_zero_iff)

lemma r5_k4_s4_cand: "candidate_loop (-2, 2) [(-2, 2), (3, 2), (1, -2)] 4 [(2, 2), (2, 0)] True 0 = (False, 1)"
  by (simp add: candidate_loop.simps edge_loop.simps IntersectsQ_def getLineLineCollision_def Let_def)

lemma r5_k4_s4_angle: "Angle (1, -2) (2, 2) = pi - arctan 4"
  using r5_arctan
  by (simp add: Angle_def atan2_def Let_def arctan_minus arctan_one
       del: zero_less_arctan_iff arctan_less_zero_iff zero_le_arctan_iff arctan_le_zero_iff)

lemma r5_k4_s4_loop: "main_loop_by array_sort_right (-2, 2) 4 6 [(2, 2), (2, 0)] [(-2, 2), (3, 2), (1, -2)] (1, -2) (2 * pi - arctan 2) 4 =
    main_loop_by array_sort_right (-2, 2) 4 6 [(2, 0)] [(-2, 2), (3, 2), (1, -2), (2, 2)] (2, 2) (pi - arctan 4) 5"
  by (subst main_loop_by.simps) (simp add: r5_k4_s4_near r5_k4_s4_sort r5_k4_s4_cand r5_k4_s4_angle AddPoint_def Let_def)

lemma r5_k4_s5_near: "NearestPoints_by array_sort_right [(2, 0)] (2, 2) 4 = [(2, 0)]"
  by (simp add: NearestPoints_by_def array_sort_right_def distance_less_iff Let_def)

lemma r5_k4_s5_sort: "SortByAngle_by array_sort_right [(2, 0)] (2, 2) (pi - arctan 4) = [(2, 0)]"
  using r5_arctan
  by (simp add: SortByAngle_by_def array_sort_right_def Angle_def atan2_def Let_def arctan_minus arctan_one
       del: zero_less_arctan_iff arctan_less_zero_iff zero_le_arctan_iff arctan_le_zero_iff)

lemma r5_k4_s5_cand: "candidate_loop (-2, 2) [(-2, 2), (3, 2), (1, -2), (2, 2)] 5 [(2, 0)] True 0 = (True, 1)"
  by (simp add: candidate_loop.simps edge_loop.simps IntersectsQ_def getLineLineCollision_def Let_def)

lemma r5_k4_s5_loop: "main_loop_by array_sort_right (-2, 2) 4 6 [(2, 0)] [(-2, 2), (3, 2), (1, -2), (2, 2)] (2, 2) (pi - arctan 4) 5 = Intersecting"
  by (subst main_loop_by.simps) (simp add: r5_k4_s5_near r5_k4_s5_sort r5_k4_s5_cand AddPoint_def Let_def)

lemma r5_k4_main: "main_loop_by array_sort_right (-2, 2) 4 6 [(1, -2), (2, 2), (3, 2), (2, 0)] [(-2, 2)] (-2, 2) (pi) 2 = Intersecting"
  by (simp only: r5_k4_s2_loop r5_k4_s3_loop r5_k4_s4_loop r5_k4_s5_loop)

lemma r5_k4_pass: "calculate_pass_by array_sort_right [(-2, 2), (1, -2), (2, 2), (3, 2), (2, 0)] 4 = Retry"
  by (simp add: calculate_pass_by_def r5_k4_seed AddPoint_def Let_def r5_k4_main)


lemma r5_CleanList:
  "CleanList [(-2, 2), (1, -2), (2, 2), (3, 2), (2, 0), (2, 0)] = [(-2, 2), (1, -2), (2, 2), (3, 2), (2, 0)]"
  by (simp add: CleanList_def multiDimensionalUnique_def)

text \<open>
  C1. Line 39 compares the neighbour count with the length of the list as given, line 57
  clamps it to one less than the number of distinct points. On a list with a repeated point
  the count of a retry can therefore reach the number of distinct points and pass line 39;
  it is clamped again, and the pass just made is made again. If that pass asks for a retry,
  the call never returns, whatever the engine's sort.
\<close>

theorem escalation_stuck:
  assumes "4 \<le> length (CleanList pointsList)"
    and "length (CleanList pointsList) < length pointsList"
    and "int (length (CleanList pointsList)) - 1 \<le> max k 3"
    and "max k 3 < int (length pointsList)"
    and "calculate_pass_by sort_fn (CleanList pointsList)
           (int (length (CleanList pointsList)) - 1) = Retry"
  shows "calculate_by sort_fn pointsList k = None"
proof (cases "calculate_by sort_fn pointsList k")
  case None
  then show ?thesis .
next
  case (Some r)
  from calculate_by_stuck_aux[OF Some assms(1,2,5)] assms(3,4) show ?thesis by simp
qed

text \<open>C1, an instance: five distinct points, the last one given twice, \<open>k = 4\<close>, and insertion
  from the right. From \<open>(-2, 2)\<close> the points \<open>(2, 2)\<close> and \<open>(3, 2)\<close> lie in the same
  direction, and this sort puts the farther one first; the hull runs
  \<open>(-2,2), (3,2), (1,-2), (2,2)\<close>, and the edge to the last point \<open>(2, 0)\<close> starts on the
  first edge.\<close>

theorem escalation_stuck_witness:
  "4 \<le> length (CleanList [(-2, 2), (1, -2), (2, 2), (3, 2), (2, 0), (2::real, 0::real)]) \<and>
   length (CleanList [(-2, 2), (1, -2), (2, 2), (3, 2), (2, 0), (2::real, 0::real)])
     < length [(-2, 2), (1, -2), (2, 2), (3, 2), (2, 0), (2::real, 0::real)] \<and>
   int (length (CleanList [(-2, 2), (1, -2), (2, 2), (3, 2), (2, 0), (2::real, 0::real)])) - 1 \<le> max 4 3 \<and>
   max 4 3 < int (length [(-2, 2), (1, -2), (2, 2), (3, 2), (2, 0), (2::real, 0::real)]) \<and>
   calculate_pass_by array_sort_right
     (CleanList [(-2, 2), (1, -2), (2, 2), (3, 2), (2, 0), (2, 0)])
     (int (length (CleanList [(-2, 2), (1, -2), (2, 2), (3, 2), (2, 0), (2::real, 0::real)])) - 1) = Retry \<and>
   calculate_by array_sort_right [(-2, 2), (1, -2), (2, 2), (3, 2), (2, 0), (2, 0)] 4 = None"
proof -
  let ?P = "[(-2, 2), (1, -2), (2, 2), (3, 2), (2, 0), (2::real, 0::real)]"
  have a: "4 \<le> length (CleanList ?P)" by (simp add: r5_CleanList)
  have b: "length (CleanList ?P) < length ?P" by (simp add: r5_CleanList)
  have c: "int (length (CleanList ?P)) - 1 \<le> max 4 3" by (simp add: r5_CleanList)
  have d: "max 4 3 < int (length ?P)" by simp
  have e: "calculate_pass_by array_sort_right (CleanList ?P) (int (length (CleanList ?P)) - 1) = Retry"
    by (simp add: r5_CleanList r5_k4_pass)
  from escalation_stuck [OF a b c d e] a b c d e show ?thesis by blast
qed

section \<open>Numbers as the engine has them\<close>

text \<open>
  A Number of the language is an IEEE 754 binary64 value: a finite value (held as the real
  number it denotes; \<open>Val 0\<close> is \<open>+0\<close>), negative zero, an infinity, or NaN. The result of
  \<open>+\<close>, \<open>-\<close>, \<open>*\<close> and \<open>/\<close> is the exact result rounded to the nearest value, ties to the
  even significand.
\<close>

datatype number = Val real | NegZero | PosInf | NegInf | NaN

fun val :: "number \<Rightarrow> real" where
  "val (Val x) = x"
| "val NegZero = 0"
| "val PosInf = 0"
| "val NegInf = 0"
| "val NaN = 0"

fun is_fin :: "number \<Rightarrow> bool" where
  "is_fin (Val x) = True"
| "is_fin NegZero = True"
| "is_fin PosInf = False"
| "is_fin NegInf = False"
| "is_fin NaN = False"

text \<open>The sign bit.\<close>

fun negative :: "number \<Rightarrow> bool" where
  "negative (Val x) = (x < 0)"
| "negative NegZero = True"
| "negative PosInf = False"
| "negative NegInf = True"
| "negative NaN = False"

text \<open>The exponent of the binade of \<open>x\<close>, not below that of the subnormal values; the
  spacing of the values there; the nearest integer, ties to even; the nearest value.\<close>

definition expo :: "real \<Rightarrow> int" where
  "expo x = max (- 1022) \<lfloor>log 2 \<bar>x\<bar>\<rfloor>"

definition ulp :: "real \<Rightarrow> real" where
  "ulp x = 2 powi (expo x - 52)"

definition rne :: "real \<Rightarrow> int" where
  "rne q =
     (let f = \<lfloor>q\<rfloor>; d = q - of_int f
      in if d < 1 / 2 then f else if d > 1 / 2 then f + 1 else if even f then f else f + 1)"

definition fl :: "real \<Rightarrow> real" where
  "fl x = of_int (rne (x / ulp x)) * ulp x"

text \<open>The rounded result as a Number: an infinity from \<open>2\<^sup>1\<^sup>0\<^sup>2\<^sup>4\<close> on, and a zero with the sign
  \<open>neg\<close> that the operation gives it.\<close>

definition round64 :: "bool \<Rightarrow> real \<Rightarrow> number" where
  "round64 neg x =
     (let y = fl x
      in if \<bar>y\<bar> \<ge> 2 ^ 1024 then (if y > 0 then PosInf else NegInf)
         else if y = 0 then (if neg then NegZero else Val 0)
         else Val y)"

fun num_neg :: "number \<Rightarrow> number" where
  "num_neg (Val x) = (if x = 0 then NegZero else Val (- x))"
| "num_neg NegZero = Val 0"
| "num_neg PosInf = NegInf"
| "num_neg NegInf = PosInf"
| "num_neg NaN = NaN"

definition num_add :: "number \<Rightarrow> number \<Rightarrow> number" where
  "num_add a b =
     (if a = NaN \<or> b = NaN then NaN
      else if a = PosInf then (if b = NegInf then NaN else PosInf)
      else if a = NegInf then (if b = PosInf then NaN else NegInf)
      else if b = PosInf then PosInf
      else if b = NegInf then NegInf
      else if a = NegZero \<and> b = NegZero then NegZero
      else round64 False (val a + val b))"

definition num_sub :: "number \<Rightarrow> number \<Rightarrow> number" where
  "num_sub a b = num_add a (num_neg b)"

definition num_mul :: "number \<Rightarrow> number \<Rightarrow> number" where
  "num_mul a b =
     (if a = NaN \<or> b = NaN then NaN
      else if is_fin a \<and> is_fin b then round64 (negative a \<noteq> negative b) (val a * val b)
      else if (is_fin a \<and> val a = 0) \<or> (is_fin b \<and> val b = 0) then NaN
      else if negative a \<noteq> negative b then NegInf else PosInf)"

definition num_div :: "number \<Rightarrow> number \<Rightarrow> number" where
  "num_div a b =
     (if a = NaN \<or> b = NaN then NaN
      else if \<not> is_fin a \<and> \<not> is_fin b then NaN
      else if \<not> is_fin a then (if negative a \<noteq> negative b then NegInf else PosInf)
      else if \<not> is_fin b then (if negative a \<noteq> negative b then NegZero else Val 0)
      else if val b = 0 then
        (if val a = 0 then NaN else if negative a \<noteq> negative b then NegInf else PosInf)
      else round64 (negative a \<noteq> negative b) (val a / val b))"

text \<open>\<^verbatim>\<open>a < b\<close>, \<^verbatim>\<open>a > b\<close> and \<^verbatim>\<open>a === b\<close> on Numbers: false with a NaN; the two zeros are
  equal.\<close>

definition num_lt :: "number \<Rightarrow> number \<Rightarrow> bool" where
  "num_lt a b =
     (a \<noteq> NaN \<and> b \<noteq> NaN \<and>
      (if a = NegInf then b \<noteq> NegInf
       else if a = PosInf then False
       else if b = PosInf then True
       else if b = NegInf then False
       else val a < val b))"

definition num_gt :: "number \<Rightarrow> number \<Rightarrow> bool" where
  "num_gt a b = num_lt b a"

definition num_eq :: "number \<Rightarrow> number \<Rightarrow> bool" where
  "num_eq a b =
     (a \<noteq> NaN \<and> b \<noteq> NaN \<and> (if is_fin a \<and> is_fin b then val a = val b else a = b))"

lemma floor_log2_eqI:
  assumes "2 powi e \<le> \<bar>x\<bar>" and "\<bar>x\<bar> < 2 powi (e + 1)"
  shows "\<lfloor>log 2 \<bar>x\<bar>\<rfloor> = e"
proof -
  have p: "0 < (2::real) powi e" by simp
  with assms(1) have pos: "0 < \<bar>x\<bar>" by linarith
  have a: "(2::real) powr of_int e = 2 powi e" by (rule powr_real_of_int') simp_all
  have b: "(2::real) powr of_int (e + 1) = 2 powi (e + 1)" by (rule powr_real_of_int') simp_all
  have "2 powr of_int e \<le> \<bar>x\<bar> \<and> \<bar>x\<bar> < 2 powr (of_int e + 1)"
    using assms a b by simp
  then show ?thesis using floor_log_eq_powr_iff[OF pos, of 2 e] by simp
qed

lemma floor_log2_bounds:
  assumes "x \<noteq> 0"
  shows "2 powi \<lfloor>log 2 \<bar>x\<bar>\<rfloor> \<le> \<bar>x\<bar> \<and> \<bar>x\<bar> < 2 powi (\<lfloor>log 2 \<bar>x\<bar>\<rfloor> + 1)"
proof -
  from assms have pos: "0 < \<bar>x\<bar>" by simp
  define e where "e = \<lfloor>log 2 \<bar>x\<bar>\<rfloor>"
  have a: "(2::real) powr of_int e = 2 powi e" by (rule powr_real_of_int') simp_all
  have b: "(2::real) powr of_int (e + 1) = 2 powi (e + 1)" by (rule powr_real_of_int') simp_all
  have "2 powr of_int e \<le> \<bar>x\<bar> \<and> \<bar>x\<bar> < 2 powr (of_int e + 1)"
    using floor_log_eq_powr_iff[OF pos, of 2 e] by (simp add: e_def)
  with a b show ?thesis unfolding e_def[symmetric] by simp
qed

lemma expo_eqI:
  assumes "2 powi e \<le> \<bar>x\<bar>" and "\<bar>x\<bar> < 2 powi (e + 1)" and "- 1022 \<le> e"
  shows "expo x = e"
  using floor_log2_eqI[OF assms(1,2)] assms(3) by (simp add: expo_def)

subsection \<open>Rounding\<close>

lemma rne_of_int [simp]: "rne (of_int n) = n"
  by (simp add: rne_def)

lemma rne_0 [simp]: "rne 0 = 0"
  by (simp add: rne_def)

lemma rne_nonneg: "0 \<le> q \<Longrightarrow> 0 \<le> rne q"
  by (auto simp: rne_def Let_def)

lemma rne_le: "q \<le> of_int m \<Longrightarrow> rne q \<le> m"
proof -
  assume le: "q \<le> of_int m"
  have f: "\<lfloor>q\<rfloor> \<le> m" using le by (simp add: floor_le_iff)
  show ?thesis
  proof (cases "q = of_int \<lfloor>q\<rfloor>")
    case True
    then have "rne q = \<lfloor>q\<rfloor>" by (metis rne_of_int)
    with f show ?thesis by simp
  next
    case False
    then have "of_int \<lfloor>q\<rfloor> < q" using of_int_floor_le[of q] by linarith
    with le have "of_int \<lfloor>q\<rfloor> < (of_int m :: real)" by linarith
    then have "\<lfloor>q\<rfloor> < m" by simp
    then have "\<lfloor>q\<rfloor> + 1 \<le> m" by simp
    with f show ?thesis by (auto simp: rne_def Let_def)
  qed
qed

lemma ulp_pos [simp]: "0 < ulp x"
  by (simp add: ulp_def)

lemma ulp_neq_0 [simp]: "ulp x \<noteq> 0"
  by (simp add: ulp_def)

lemma fl_0 [simp]: "fl 0 = 0"
  by (simp add: fl_def)

lemma fl_nonneg: "0 \<le> x \<Longrightarrow> 0 \<le> fl x"
proof -
  assume "0 \<le> x"
  then have "0 \<le> x / ulp x" by (rule divide_nonneg_pos) (rule ulp_pos)
  then have "0 \<le> rne (x / ulp x)" by (rule rne_nonneg)
  then have "0 \<le> of_int (rne (x / ulp x)) * ulp x"
    by (intro mult_nonneg_nonneg) (simp_all add: less_imp_le)
  then show ?thesis by (simp only: fl_def)
qed

text \<open>A value with a significand of at most 53 bits and an exponent in range is not
  changed.\<close>

lemma fl_exact_aux:
  assumes x: "x = of_int m * 2 powi k" and m: "\<bar>m\<bar> < 2 ^ 53" and k: "- 1074 \<le> k"
  shows "fl x = x"
proof (cases "m = 0")
  case True
  with x show ?thesis by simp
next
  case False
  then have xne: "x \<noteq> 0" using x by simp
  have ax: "\<bar>x\<bar> = of_int \<bar>m\<bar> * 2 powi k" by (simp add: x abs_mult)
  have "of_int \<bar>m\<bar> < (2::real) ^ 53" using m by (metis of_int_less_numeral_power_cancel_iff)
  then have "\<bar>x\<bar> < 2 ^ 53 * 2 powi k" unfolding ax by simp
  also have "\<dots> = 2 powi (53 + k)" by (simp add: power_int_add)
  finally have up: "\<bar>x\<bar> < 2 powi (53 + k)" .
  from floor_log2_bounds[OF xne] have "2 powi \<lfloor>log 2 \<bar>x\<bar>\<rfloor> \<le> \<bar>x\<bar>" by simp
  with up have "(2::real) powi \<lfloor>log 2 \<bar>x\<bar>\<rfloor> < 2 powi (53 + k)" by linarith
  then have "\<lfloor>log 2 \<bar>x\<bar>\<rfloor> < 53 + k"
  proof (rule contrapos_pp)
    assume "\<not> \<lfloor>log 2 \<bar>x\<bar>\<rfloor> < 53 + k"
    then have "53 + k \<le> \<lfloor>log 2 \<bar>x\<bar>\<rfloor>" by simp
    then have "(2::real) powi (53 + k) \<le> 2 powi \<lfloor>log 2 \<bar>x\<bar>\<rfloor>"
      by (rule power_int_increasing) simp
    then show "\<not> (2::real) powi \<lfloor>log 2 \<bar>x\<bar>\<rfloor> < 2 powi (53 + k)" by simp
  qed
  with k have E: "expo x - 52 \<le> k" by (simp add: expo_def)
  define u where "u = ulp x"
  have upos: "0 < u" by (simp add: u_def)
  define j where "j = nat (k - (expo x - 52))"
  have kj: "k = (expo x - 52) + int j" using E by (simp add: j_def)
  have "2 powi k = (2::real) powi (expo x - 52) * 2 ^ j"
    by (subst kj) (simp add: power_int_add)
  then have pk: "2 powi k = u * 2 ^ j" by (simp add: u_def ulp_def)
  have xu: "x = of_int (m * 2 ^ j) * u"
    unfolding x pk by simp
  then have "x / u = of_int (m * 2 ^ j)" using upos by simp
  then have "fl x = of_int (m * 2 ^ j) * u" by (simp only: fl_def rne_of_int u_def)
  with xu show ?thesis by simp
qed

lemma fl_exact:
  assumes x: "x = of_int m * 2 powi k" and m: "\<bar>m\<bar> \<le> 2 ^ 53" and k: "- 1074 \<le> k"
  shows "fl x = x"
proof (cases "\<bar>m\<bar> < 2 ^ 53")
  case True
  from fl_exact_aux[OF x True k] show ?thesis .
next
  case False
  with m have e: "\<bar>m\<bar> = 2 ^ 53" by simp
  then have e': "\<bar>m\<bar> = 9007199254740992" by simp
  define h where "h = m div 2"
  from e' have mh: "m = 2 * h" unfolding h_def by presburger
  have "x = of_int h * (2 powi k * 2)" unfolding x mh by simp
  also have "2 powi k * (2::real) = 2 powi (k + 1)" by (simp add: power_int_add_1)
  finally have xh: "x = of_int h * 2 powi (k + 1)" .
  from e' have "\<bar>h\<bar> < 9007199254740992" unfolding h_def by presburger
  then have hb: "\<bar>h\<bar> < 2 ^ 53" by simp
  from k have "- 1074 \<le> k + 1" by simp
  from fl_exact_aux[OF xh hb this] show ?thesis .
qed

lemma fl_of_int: "\<bar>n\<bar> \<le> 2 ^ 53 \<Longrightarrow> fl (of_int n) = of_int n"
  by (rule fl_exact[of _ n 0]) simp_all

lemma fl_exact_div:
  assumes x: "x * 2 ^ j = of_int m" and m: "\<bar>m\<bar> \<le> 2 ^ 53" and j: "j \<le> 1074"
  shows "fl x = x"
proof (rule fl_exact[OF _ m])
  have "(2::real) powi (- int j) = inverse (2 ^ j)"
    by (simp add: power_int_minus)
  then have "of_int m * 2 powi (- int j) = x * 2 ^ j * inverse (2 ^ j)" by (simp add: x)
  also have "\<dots> = x" by simp
  finally show "x = of_int m * 2 powi (- int j)" by simp
  show "- 1074 \<le> - int j" using j by simp
qed

lemma expo_mono:
  assumes "0 < x" and "x \<le> y"
  shows "expo x \<le> expo y"
proof -
  have "log 2 \<bar>x\<bar> \<le> log 2 \<bar>y\<bar>" using assms by simp
  then have "\<lfloor>log 2 \<bar>x\<bar>\<rfloor> \<le> \<lfloor>log 2 \<bar>y\<bar>\<rfloor>" by (rule floor_mono)
  then show ?thesis by (simp add: expo_def)
qed

text \<open>Rounding does not pass a value of the format.\<close>

lemma fl_le_double:
  assumes d: "fl d = d" and x: "0 < x" "x \<le> d"
  shows "fl x \<le> d"
proof -
  define j where "j = nat (expo d - expo x)"
  from expo_mono[OF x] have ej: "expo d - 52 = (expo x - 52) + int j" by (simp add: j_def)
  have uu: "ulp d = ulp x * 2 ^ j"
    unfolding ulp_def by (subst ej) (simp add: power_int_add)
  define r where "r = rne (d / ulp d)"
  define M where "M = r * 2 ^ j"
  have dM: "d = of_int M * ulp x"
  proof -
    have "d = of_int r * ulp d" using d by (simp add: fl_def r_def)
    also have "\<dots> = of_int r * (ulp x * 2 ^ j)" by (simp only: uu)
    also have "\<dots> = of_int M * ulp x" by (simp add: M_def)
    finally show ?thesis .
  qed
  have "x / ulp x \<le> d / ulp x" using x(2) by (rule divide_right_mono) (simp add: less_imp_le)
  also have "d / ulp x = of_int M" using dM ulp_pos[of x] by simp
  finally have "rne (x / ulp x) \<le> M" by (rule rne_le)
  then have "of_int (rne (x / ulp x)) * ulp x \<le> of_int M * ulp x"
    using ulp_pos[of x] by simp
  then show ?thesis using dM by (simp add: fl_def)
qed

subsection \<open>The operations where nothing is rounded\<close>

lemma round64_exact:
  assumes "fl x = x" and "\<bar>x\<bar> < 2 ^ 1024"
  shows "round64 s x = (if x = 0 then (if s then NegZero else Val 0) else Val x)"
  using assms by (simp add: round64_def Let_def)

lemma round64_of_int:
  assumes "\<bar>n\<bar> \<le> 2 ^ 53"
  shows "round64 s (of_int n) = (if n = 0 then (if s then NegZero else Val 0) else Val (of_int n))"
proof -
  have "\<bar>of_int n :: real\<bar> \<le> 2 ^ 53" using assms by (metis of_int_abs of_int_le_numeral_power_cancel_iff)
  moreover have "(2::real) ^ 53 < 2 ^ 1024" by simp
  ultimately have "\<bar>of_int n :: real\<bar> < 2 ^ 1024" by linarith
  from round64_exact[OF fl_of_int[OF assms] this] show ?thesis by simp
qed

text \<open>A Number that holds the integer \<open>n\<close>; for \<open>n = 0\<close> either zero.\<close>

definition int_val :: "int \<Rightarrow> number \<Rightarrow> bool" where
  "int_val n x \<longleftrightarrow> x = Val (of_int n) \<or> (n = 0 \<and> x = NegZero)"

lemma int_val_Val [simp]: "int_val n (Val (of_int n))"
  by (simp add: int_val_def)

lemma int_val_fin: "int_val n x \<Longrightarrow> is_fin x \<and> val x = of_int n \<and> x \<noteq> NaN"
  by (auto simp: int_val_def)

lemma num_neg_int_val: "int_val n x \<Longrightarrow> int_val (- n) (num_neg x)"
proof (cases "n = 0")
  case True
  assume "int_val n x"
  with True have "x = Val 0 \<or> x = NegZero" by (simp add: int_val_def)
  then show ?thesis using True by (auto simp: int_val_def)
next
  case False
  assume "int_val n x"
  with False have "x = Val (of_int n)" by (simp add: int_val_def)
  then show ?thesis using False by (simp add: int_val_def)
qed

lemma num_add_int_val:
  assumes "int_val a x" and "int_val b y" and "\<bar>a + b\<bar> \<le> 2 ^ 53"
  shows "int_val (a + b) (num_add x y)"
proof (cases "x = NegZero \<and> y = NegZero")
  case True
  with assms show ?thesis by (auto simp: int_val_def num_add_def)
next
  case False
  from int_val_fin[OF assms(1)] int_val_fin[OF assms(2)] have
    f: "is_fin x" "is_fin y" "val x = of_int a" "val y = of_int b" by simp_all
  then have i: "x \<noteq> NaN" "y \<noteq> NaN" "x \<noteq> PosInf" "x \<noteq> NegInf" "y \<noteq> PosInf" "y \<noteq> NegInf"
    by auto
  have "num_add x y = round64 False (val x + val y)"
    unfolding num_add_def using False i by (simp only: if_False simp_thms)
  then have "num_add x y = round64 False (of_int (a + b))"
    by (simp add: f)
  with round64_of_int[OF assms(3), of False] show ?thesis by (simp add: int_val_def)
qed

lemma num_sub_int_val:
  assumes "int_val a x" and "int_val b y" and "\<bar>a - b\<bar> \<le> 2 ^ 53"
  shows "int_val (a - b) (num_sub x y)"
  using num_add_int_val[OF assms(1) num_neg_int_val[OF assms(2)]] assms(3)
  by (simp add: num_sub_def)

lemma num_mul_int_val:
  assumes "int_val a x" and "int_val b y" and "\<bar>a * b\<bar> \<le> 2 ^ 53"
  shows "int_val (a * b) (num_mul x y)"
proof -
  from int_val_fin[OF assms(1)] int_val_fin[OF assms(2)] have
    f: "is_fin x" "is_fin y" "val x = of_int a" "val y = of_int b" "x \<noteq> NaN" "y \<noteq> NaN"
    by simp_all
  have "num_mul x y = round64 (negative x \<noteq> negative y) (of_int (a * b))"
    using f by (simp add: num_mul_def)
  with round64_of_int[OF assms(3), of "negative x \<noteq> negative y"] show ?thesis
    by (auto simp: int_val_def)
qed

lemma int_val_0_eq: "int_val 0 x \<Longrightarrow> num_eq x (Val 0)"
  by (auto simp: int_val_def num_eq_def)

section \<open>The geometric primitives on Numbers\<close>

type_synonym npoint = "number \<times> number"

text \<open>\<^verbatim>\<open>getLineLineCollision(p0, p1, p2, p3)\<close>, lines 442-484, with the arithmetic of the
  engine.\<close>

definition getLineLineCollision_num :: "npoint \<Rightarrow> npoint \<Rightarrow> npoint \<Rightarrow> npoint \<Rightarrow> npoint option" where
  "getLineLineCollision_num p0 p1 p2 p3 =
     (let s10_x = num_sub (fst p1) (fst p0);
          s10_y = num_sub (snd p1) (snd p0);
          s32_x = num_sub (fst p3) (fst p2);
          s32_y = num_sub (snd p3) (snd p2);
          denom = num_sub (num_mul s10_x s32_y) (num_mul s32_x s10_y)
      in if num_eq denom (Val 0) then None
         else
           let denom_positive = num_gt denom (Val 0);
               s02_x = num_sub (fst p0) (fst p2);
               s02_y = num_sub (snd p0) (snd p2);
               s_numer = num_sub (num_mul s10_x s02_y) (num_mul s10_y s02_x)
           in if num_lt s_numer (Val 0) = denom_positive then None
              else
                let t_numer = num_sub (num_mul s32_x s02_y) (num_mul s32_y s02_x)
                in if num_lt t_numer (Val 0) = denom_positive then None
                   else if num_gt s_numer denom = denom_positive \<or>
                           num_gt t_numer denom = denom_positive
                   then None
                   else
                     let t = num_div t_numer denom
                     in Some (num_add (fst p0) (num_mul t s10_x),
                              num_add (snd p0) (num_mul t s10_y)))"

text \<open>\<^verbatim>\<open>IntersectsQ(lineA, lineB)\<close>, lines 313-327.\<close>

definition IntersectsQ_num :: "npoint \<times> npoint \<Rightarrow> npoint \<times> npoint \<Rightarrow> bool" where
  "IntersectsQ_num lineA lineB =
     (if getLineLineCollision_num (fst lineA) (snd lineA) (fst lineB) (snd lineB) \<noteq> None
      then True else False)"

text \<open>A point with integer coordinates.\<close>

definition int_point :: "int \<Rightarrow> int \<Rightarrow> npoint" where
  "int_point x y = (Val (of_int x), Val (of_int y))"

lemma abs_diff_le:
  fixes a b :: int
  assumes "\<bar>a\<bar> \<le> 2 ^ 25" and "\<bar>b\<bar> \<le> 2 ^ 25"
  shows "\<bar>a - b\<bar> \<le> 2 ^ 26"
  using assms by simp

lemma abs_prod_le:
  fixes a b :: int
  assumes "\<bar>a\<bar> \<le> 2 ^ 26" and "\<bar>b\<bar> \<le> 2 ^ 26"
  shows "\<bar>a * b\<bar> \<le> 2 ^ 52"
proof -
  have "\<bar>a * b\<bar> = \<bar>a\<bar> * \<bar>b\<bar>" by (rule abs_mult)
  also have "\<dots> \<le> 2 ^ 26 * 2 ^ 26" by (rule mult_mono) (use assms in simp_all)
  finally show ?thesis by simp
qed

lemma denom_int_val:
  assumes b: "\<bar>x0\<bar> \<le> 2 ^ 25" "\<bar>y0\<bar> \<le> 2 ^ 25" "\<bar>x1\<bar> \<le> 2 ^ 25" "\<bar>y1\<bar> \<le> 2 ^ 25"
    "\<bar>x2\<bar> \<le> 2 ^ 25" "\<bar>y2\<bar> \<le> 2 ^ 25" "\<bar>x3\<bar> \<le> 2 ^ 25" "\<bar>y3\<bar> \<le> 2 ^ 25"
  shows "int_val ((x1 - x0) * (y3 - y2) - (x3 - x2) * (y1 - y0))
     (num_sub (num_mul (num_sub (Val (of_int x1)) (Val (of_int x0)))
                       (num_sub (Val (of_int y3)) (Val (of_int y2))))
              (num_mul (num_sub (Val (of_int x3)) (Val (of_int x2)))
                       (num_sub (Val (of_int y1)) (Val (of_int y0)))))"
proof -
  have d: "\<bar>x1 - x0\<bar> \<le> 2 ^ 26" "\<bar>y3 - y2\<bar> \<le> 2 ^ 26" "\<bar>x3 - x2\<bar> \<le> 2 ^ 26" "\<bar>y1 - y0\<bar> \<le> 2 ^ 26"
    using b by (simp_all add: abs_diff_le)
  have d53: "\<bar>x1 - x0\<bar> \<le> 2 ^ 53" "\<bar>y3 - y2\<bar> \<le> 2 ^ 53" "\<bar>x3 - x2\<bar> \<le> 2 ^ 53" "\<bar>y1 - y0\<bar> \<le> 2 ^ 53"
    using d by simp_all
  have s: "int_val (x1 - x0) (num_sub (Val (of_int x1)) (Val (of_int x0)))"
    "int_val (y3 - y2) (num_sub (Val (of_int y3)) (Val (of_int y2)))"
    "int_val (x3 - x2) (num_sub (Val (of_int x3)) (Val (of_int x2)))"
    "int_val (y1 - y0) (num_sub (Val (of_int y1)) (Val (of_int y0)))"
    by (rule num_sub_int_val[OF int_val_Val int_val_Val d53(1)],
        rule num_sub_int_val[OF int_val_Val int_val_Val d53(2)],
        rule num_sub_int_val[OF int_val_Val int_val_Val d53(3)],
        rule num_sub_int_val[OF int_val_Val int_val_Val d53(4)])
  have p: "\<bar>(x1 - x0) * (y3 - y2)\<bar> \<le> 2 ^ 52" "\<bar>(x3 - x2) * (y1 - y0)\<bar> \<le> 2 ^ 52"
    by (rule abs_prod_le[OF d(1,2)], rule abs_prod_le[OF d(3,4)])
  then have p53: "\<bar>(x1 - x0) * (y3 - y2)\<bar> \<le> 2 ^ 53" "\<bar>(x3 - x2) * (y1 - y0)\<bar> \<le> 2 ^ 53"
    by simp_all
  have q: "\<bar>(x1 - x0) * (y3 - y2) - (x3 - x2) * (y1 - y0)\<bar> \<le> 2 ^ 53"
    using p by simp
  show ?thesis
    by (rule num_sub_int_val[OF num_mul_int_val[OF s(1,2) p53(1)] num_mul_int_val[OF s(3,4) p53(2)] q])
qed

text \<open>
  C8 (as amended). \<^verbatim>\<open>IntersectsQ\<close> is false whenever the cross product of the two direction
  vectors is zero as line 453 computes it, from the rounded differences of lines 448-451
  and with rounded products. For segments with integer coordinates of magnitude at most
  \<open>2\<^sup>2\<^sup>5\<close> nothing is rounded there, so that segments whose direction vectors are exactly
  parallel (collinear and overlapping ones too) are reported as not intersecting.
\<close>

theorem IntersectsQ_num_parallel:
  "(num_eq (num_sub (num_mul (num_sub (fst a1) (fst a0)) (num_sub (snd b1) (snd b0)))
                    (num_mul (num_sub (fst b1) (fst b0)) (num_sub (snd a1) (snd a0)))) (Val 0)
      \<longrightarrow> IntersectsQ_num (a0, a1) (b0, b1) = False) \<and>
   (\<bar>x0\<bar> \<le> 2 ^ 25 \<and> \<bar>y0\<bar> \<le> 2 ^ 25 \<and> \<bar>x1\<bar> \<le> 2 ^ 25 \<and> \<bar>y1\<bar> \<le> 2 ^ 25 \<and>
    \<bar>x2\<bar> \<le> 2 ^ 25 \<and> \<bar>y2\<bar> \<le> 2 ^ 25 \<and> \<bar>x3\<bar> \<le> 2 ^ 25 \<and> \<bar>y3\<bar> \<le> 2 ^ 25 \<and>
    (x1 - x0) * (y3 - y2) - (x3 - x2) * (y1 - y0) = 0
      \<longrightarrow> IntersectsQ_num (int_point x0 y0, int_point x1 y1) (int_point x2 y2, int_point x3 y3) = False)"
proof (intro conjI impI)
  assume "num_eq (num_sub (num_mul (num_sub (fst a1) (fst a0)) (num_sub (snd b1) (snd b0)))
                    (num_mul (num_sub (fst b1) (fst b0)) (num_sub (snd a1) (snd a0)))) (Val 0)"
  then show "IntersectsQ_num (a0, a1) (b0, b1) = False"
    by (simp add: IntersectsQ_num_def getLineLineCollision_num_def)
next
  assume a: "\<bar>x0\<bar> \<le> 2 ^ 25 \<and> \<bar>y0\<bar> \<le> 2 ^ 25 \<and> \<bar>x1\<bar> \<le> 2 ^ 25 \<and> \<bar>y1\<bar> \<le> 2 ^ 25 \<and>
    \<bar>x2\<bar> \<le> 2 ^ 25 \<and> \<bar>y2\<bar> \<le> 2 ^ 25 \<and> \<bar>x3\<bar> \<le> 2 ^ 25 \<and> \<bar>y3\<bar> \<le> 2 ^ 25 \<and>
    (x1 - x0) * (y3 - y2) - (x3 - x2) * (y1 - y0) = 0"
  then have b: "\<bar>x0\<bar> \<le> 2 ^ 25" "\<bar>y0\<bar> \<le> 2 ^ 25" "\<bar>x1\<bar> \<le> 2 ^ 25" "\<bar>y1\<bar> \<le> 2 ^ 25"
    "\<bar>x2\<bar> \<le> 2 ^ 25" "\<bar>y2\<bar> \<le> 2 ^ 25" "\<bar>x3\<bar> \<le> 2 ^ 25" "\<bar>y3\<bar> \<le> 2 ^ 25"
    and z: "(x1 - x0) * (y3 - y2) - (x3 - x2) * (y1 - y0) = 0"
    by simp_all
  from denom_int_val[OF b] have "int_val 0
     (num_sub (num_mul (num_sub (Val (of_int x1)) (Val (of_int x0)))
                       (num_sub (Val (of_int y3)) (Val (of_int y2))))
              (num_mul (num_sub (Val (of_int x3)) (Val (of_int x2)))
                       (num_sub (Val (of_int y1)) (Val (of_int y0)))))"
    by (simp only: z)
  from int_val_0_eq[OF this]
  show "IntersectsQ_num (int_point x0 y0, int_point x1 y1) (int_point x2 y2, int_point x3 y3) = False"
    by (simp add: IntersectsQ_num_def getLineLineCollision_num_def int_point_def)
qed

text \<open>C8, an instance: two overlapping segments of the X axis.\<close>

theorem IntersectsQ_num_parallel_witness:
  "num_eq (num_sub (num_mul (num_sub (fst (int_point 2 0)) (fst (int_point 0 0)))
                            (num_sub (snd (int_point 3 0)) (snd (int_point 1 0))))
                   (num_mul (num_sub (fst (int_point 3 0)) (fst (int_point 1 0)))
                            (num_sub (snd (int_point 2 0)) (snd (int_point 0 0))))) (Val 0) \<and>
   IntersectsQ_num (int_point 0 0, int_point 2 0) (int_point 1 0, int_point 3 0) = False \<and>
   \<bar>0::int\<bar> \<le> 2 ^ 25 \<and> \<bar>2::int\<bar> \<le> 2 ^ 25 \<and> \<bar>1::int\<bar> \<le> 2 ^ 25 \<and> \<bar>3::int\<bar> \<le> 2 ^ 25 \<and>
   ((2::int) - 0) * (0 - 0) - (3 - 1) * (0 - 0) = 0"
proof -
  have b: "\<bar>0::int\<bar> \<le> 2 ^ 25" "\<bar>2::int\<bar> \<le> 2 ^ 25" "\<bar>1::int\<bar> \<le> 2 ^ 25" "\<bar>3::int\<bar> \<le> 2 ^ 25"
    by simp_all
  have z: "((2::int) - 0) * (0 - 0) - (3 - 1) * (0 - 0) = 0" by simp
  have "int_val (((2::int) - 0) * (0 - 0) - (3 - 1) * (0 - 0))
     (num_sub (num_mul (num_sub (Val (of_int 2)) (Val (of_int 0)))
                       (num_sub (Val (of_int 0)) (Val (of_int 0))))
              (num_mul (num_sub (Val (of_int 3)) (Val (of_int 1)))
                       (num_sub (Val (of_int 0)) (Val (of_int 0)))))"
    by (rule denom_int_val) simp_all
  then have "int_val 0
     (num_sub (num_mul (num_sub (Val (of_int 2)) (Val (of_int 0)))
                       (num_sub (Val (of_int 0)) (Val (of_int 0))))
              (num_mul (num_sub (Val (of_int 3)) (Val (of_int 1)))
                       (num_sub (Val (of_int 0)) (Val (of_int 0)))))"
    by (simp only: z)
  from int_val_0_eq[OF this] have d:
    "num_eq (num_sub (num_mul (num_sub (fst (int_point 2 0)) (fst (int_point 0 0)))
                            (num_sub (snd (int_point 3 0)) (snd (int_point 1 0))))
                   (num_mul (num_sub (fst (int_point 3 0)) (fst (int_point 1 0)))
                            (num_sub (snd (int_point 2 0)) (snd (int_point 0 0))))) (Val 0)"
    by (simp only: int_point_def fst_conv snd_conv)
  from IntersectsQ_num_parallel
    [where ?a0.0 = "int_point 0 0" and ?a1.0 = "int_point 2 0" and ?b0.0 = "int_point 1 0"
       and ?b1.0 = "int_point 3 0" and ?x0.0 = 0 and ?y0.0 = 0 and ?x1.0 = 2 and ?y1.0 = 0
       and ?x2.0 = 1 and ?y2.0 = 0 and ?x3.0 = 3 and ?y3.0 = 0]
    d b z
  show ?thesis by blast
qed

subsection \<open>Two parallel segments that the engine reports as intersecting\<close>

lemma expo_9007199254740993: "expo 9007199254740993 = 53"
  by (rule expo_eqI) (simp_all add: power_int_def)

lemma fl_9007199254740993: "fl 9007199254740993 = 9007199254740992"
  by (simp add: fl_def ulp_def expo_9007199254740993 rne_def Let_def power_int_def)

lemma expo_27021597764222979: "expo 27021597764222979 = 54"
  by (rule expo_eqI) (simp_all add: power_int_def)

lemma fl_27021597764222979: "fl 27021597764222979 = 27021597764222980"
  by (simp add: fl_def ulp_def expo_27021597764222979 rne_def Let_def power_int_def)

lemma fl_27021597764222976: "fl (- 27021597764222976) = - 27021597764222976"
  by (rule fl_exact[of _ "- 3" 53]) (simp_all add: power_int_def)

lemma fl_27021597764222980: "fl (- 27021597764222980) = - 27021597764222980"
  by (rule fl_exact[of _ "- 6755399441055745" 2]) (simp_all add: power_int_def)

lemma fl_small [simp]: "fl 1 = 1" "fl (- 1) = - 1" "fl 3 = 3" "fl (- 3) = - 3" "fl 4 = 4"
     "fl (3 / 4) = 3 / 4"
proof -
  show "fl 1 = 1" using fl_of_int[of 1] by simp
  show "fl (- 1) = - 1" using fl_of_int[of "- 1"] by simp
  show "fl 3 = 3" using fl_of_int[of 3] by simp
  show "fl (- 3) = - 3" using fl_of_int[of "- 3"] by simp
  show "fl 4 = 4" using fl_of_int[of 4] by simp
  show "fl (3 / 4) = 3 / 4" by (rule fl_exact_div[of _ 2 3]) simp_all
qed

lemma r4_differences:
  "num_sub (Val 9007199254740991) (Val (- 2)) = Val 9007199254740992"
  "num_sub (Val (- 1)) (Val 0) = Val (- 1)"
  "num_sub (Val 27021597764222976) (Val (- 3)) = Val 27021597764222980"
  "num_sub (Val (- 3)) (Val 0) = Val (- 3)"
  "num_sub (Val (- 2)) (Val (- 3)) = Val 1"
  "num_sub (Val 0) (Val 0) = Val 0"
  by (simp_all add: num_sub_def num_add_def round64_def Let_def
        fl_9007199254740993 fl_27021597764222979)

lemma r4_products:
  "num_mul (Val 9007199254740992) (Val (- 3)) = Val (- 27021597764222976)"
  "num_mul (Val 27021597764222980) (Val (- 1)) = Val (- 27021597764222980)"
  "num_mul (Val 9007199254740992) (Val 0) = Val 0"
  "num_mul (Val (- 1)) (Val 1) = Val (- 1)"
  "num_mul (Val 27021597764222980) (Val 0) = Val 0"
  "num_mul (Val (- 3)) (Val 1) = Val (- 3)"
  by (simp_all add: num_mul_def round64_def Let_def fl_27021597764222976 fl_27021597764222980)

lemma r4_numerators:
  "num_sub (Val (- 27021597764222976)) (Val (- 27021597764222980)) = Val 4"
  "num_sub (Val 0) (Val (- 1)) = Val 1"
  "num_sub (Val 0) (Val (- 3)) = Val 3"
  by (simp_all add: num_sub_def num_add_def round64_def Let_def)

text \<open>
  C8 as stated fails. The direction vectors of the segments from \<open>(-2, 0)\<close> to
  \<open>(2\<^sup>5\<^sup>3 - 1, -1)\<close> and from \<open>(-3, 0)\<close> to \<open>(3 \<sqdot> 2\<^sup>5\<^sup>3, -3)\<close> are \<open>(2\<^sup>5\<^sup>3 + 1, -1)\<close> and three times
  that: their cross product is zero. All eight coordinates are values of the format. Lines
  448-451 round the first differences to \<open>2\<^sup>5\<^sup>3\<close> and \<open>3 \<sqdot> 2\<^sup>5\<^sup>3 + 4\<close>, line 453 gets
  \<open>denom = 4\<close>, and an intersection is reported.
\<close>

theorem IntersectsQ_num_parallel_counterexample:
  "((9007199254740991::real) - (- 2)) * ((- 3) - 0) - (27021597764222976 - (- 3)) * ((- 1) - 0) = 0 \<and>
   fl (- 2) = - 2 \<and> fl 9007199254740991 = 9007199254740991 \<and> fl (- 1) = - 1 \<and>
   fl (- 3) = - 3 \<and> fl 27021597764222976 = 27021597764222976 \<and>
   IntersectsQ_num ((Val (- 2), Val 0), (Val 9007199254740991, Val (- 1)))
                   ((Val (- 3), Val 0), (Val 27021597764222976, Val (- 3))) = True"
proof -
  have a: "fl (- 2) = - 2" using fl_of_int[of "- 2"] by simp
  have b: "fl 9007199254740991 = 9007199254740991" using fl_of_int[of 9007199254740991] by simp
  have c: "fl 27021597764222976 = 27021597764222976"
    by (rule fl_exact[of _ 3 53]) (simp_all add: power_int_def)
  have "IntersectsQ_num ((Val (- 2), Val 0), (Val 9007199254740991, Val (- 1)))
                   ((Val (- 3), Val 0), (Val 27021597764222976, Val (- 3))) = True"
    by (simp add: IntersectsQ_num_def getLineLineCollision_num_def Let_def
          r4_differences r4_products r4_numerators num_eq_def num_lt_def num_gt_def)
  with a b c show ?thesis by simp
qed

subsection \<open>The angle\<close>

text \<open>\<^verbatim>\<open>Math.PI\<close>, the value of the format nearest to \<open>\<pi>\<close>:
  \<open>884279719003555 / 2\<^sup>4\<^sup>8\<close>.\<close>

definition Math_PI :: real where
  "Math_PI = 884279719003555 / 281474976710656"

text \<open>\<^verbatim>\<open>Angle(pointA, pointB)\<close>, lines 352-365, with the arithmetic of the engine.
  \<^verbatim>\<open>Math.atan2\<close> is left to the engine by the language, within an approximation that is
  not prescribed: it is a parameter.\<close>

definition Angle_num :: "(number \<Rightarrow> number \<Rightarrow> number) \<Rightarrow> npoint \<Rightarrow> npoint \<Rightarrow> number" where
  "Angle_num Math_atan2 pointA pointB =
     (let angle = Math_atan2 (num_sub (snd pointB) (snd pointA)) (num_sub (fst pointB) (fst pointA));
          angle = num_sub (Val Math_PI) angle
      in if num_lt angle (Val 0) then num_add angle (num_mul (Val 2) (Val Math_PI)) else angle)"

text \<open>What is asked of the engine: for arguments other than NaN the result of
  \<^verbatim>\<open>Math.atan2\<close> is finite and lies between \<^verbatim>\<open>-Math.PI\<close> and \<^verbatim>\<open>Math.PI\<close>.\<close>

definition atan2_in_range :: "(number \<Rightarrow> number \<Rightarrow> number) \<Rightarrow> bool" where
  "atan2_in_range Math_atan2 \<longleftrightarrow>
     (\<forall>y x. y \<noteq> NaN \<and> x \<noteq> NaN \<longrightarrow>
        is_fin (Math_atan2 y x) \<and> - Math_PI \<le> val (Math_atan2 y x) \<and> val (Math_atan2 y x) \<le> Math_PI)"

text \<open>A \<^verbatim>\<open>Math.atan2\<close>: the cases that the language fixes (zeros, infinities, the axes),
  and elsewhere the angle rounded to the nearest value, kept within \<^verbatim>\<open>Math.PI\<close>.\<close>

definition atan2_nearest :: "number \<Rightarrow> number \<Rightarrow> number" where
  "atan2_nearest y x =
     (if y = NaN \<or> x = NaN then NaN
      else if y = PosInf then
        (if x = PosInf then Val (Math_PI / 4) else if x = NegInf then Val (3 * Math_PI / 4)
         else Val (Math_PI / 2))
      else if y = NegInf then
        (if x = PosInf then Val (- (Math_PI / 4)) else if x = NegInf then Val (- (3 * Math_PI / 4))
         else Val (- (Math_PI / 2)))
      else if x = PosInf then (if negative y then NegZero else Val 0)
      else if x = NegInf then (if negative y then Val (- Math_PI) else Val Math_PI)
      else if val y = 0 then
        (if negative x then (if negative y then Val (- Math_PI) else Val Math_PI)
         else (if negative y then NegZero else Val 0))
      else if val x = 0 then (if val y > 0 then Val (Math_PI / 2) else Val (- (Math_PI / 2)))
      else
        let r = fl (atan2 (val y) (val x))
        in if r = 0 then (if negative y then NegZero else Val 0)
           else Val (max (- Math_PI) (min Math_PI r)))"

lemma Math_PI_pos: "0 < Math_PI"
  by (simp add: Math_PI_def)

lemma fl_two_Math_PI: "fl (2 * Math_PI) = 2 * Math_PI"
  by (rule fl_exact_div[of _ 47 884279719003555]) (simp_all add: Math_PI_def)

lemma fl_Math_PI: "fl Math_PI = Math_PI"
  by (rule fl_exact_div[of _ 48 884279719003555]) (simp_all add: Math_PI_def)

lemma is_fin_cases: "is_fin n \<Longrightarrow> (\<exists>v. n = Val v) \<or> n = NegZero"
  by (cases n) simp_all

lemma num_sub_not_NaN:
  assumes "is_fin a" and "is_fin b"
  shows "num_sub a b \<noteq> NaN"
proof -
  from assms(2) have nb: "is_fin (num_neg b)" by (cases b) simp_all
  have r: "round64 s x \<noteq> NaN" for s x by (simp add: round64_def Let_def)
  from assms(1) nb show ?thesis
    unfolding num_sub_def num_add_def by (cases a; cases "num_neg b") (simp_all add: r)
qed

lemma num_sub_Math_PI:
  assumes f: "is_fin t" and lo: "- Math_PI \<le> val t" and hi: "val t \<le> Math_PI"
  shows "\<exists>v. num_sub (Val Math_PI) t = Val v \<and> 0 \<le> v \<and> v \<le> 2 * Math_PI"
proof -
  define x where "x = Math_PI - val t"
  have x: "0 \<le> x" "x \<le> 2 * Math_PI" using lo hi by (simp_all add: x_def)
  from f have nt: "is_fin (num_neg t)" "val (num_neg t) = - val t" by (cases t; simp)+
  then have i: "num_neg t \<noteq> NaN" "num_neg t \<noteq> PosInf" "num_neg t \<noteq> NegInf" by auto
  have e: "num_sub (Val Math_PI) t = round64 False x"
    unfolding num_sub_def num_add_def using i nt(2) by (simp add: x_def)
  have y0: "0 \<le> fl x" using x(1) by (rule fl_nonneg)
  have y1: "fl x \<le> 2 * Math_PI"
  proof (cases "x = 0")
    case True
    then show ?thesis using Math_PI_pos by simp
  next
    case False
    with x(1) have "0 < x" by simp
    from fl_le_double[OF fl_two_Math_PI this x(2)] show ?thesis .
  qed
  have "2 * Math_PI < 2 ^ 1024" by (simp add: Math_PI_def)
  with y0 y1 have small: "\<not> \<bar>fl x\<bar> \<ge> 2 ^ 1024" by linarith
  have "round64 False x = Val (fl x)"
    using small by (simp add: round64_def Let_def)
  with e y0 y1 show ?thesis by simp
qed

text \<open>
  C9 (as amended). For points with finite coordinates and every \<^verbatim>\<open>Math.atan2\<close> that stays
  within \<^verbatim>\<open>Math.PI\<close>, \<^verbatim>\<open>Angle(a, b)\<close> is \<^verbatim>\<open>Math.PI\<close> minus \<^verbatim>\<open>Math.atan2\<close> of the two differences,
  each step rounded; the branch that adds \<^verbatim>\<open>2 * Math.PI\<close> is never taken; the value is a
  finite number in the closed interval from \<open>0\<close> to \<^verbatim>\<open>2 * Math.PI\<close>.
\<close>

theorem Angle_num_range:
  assumes "atan2_in_range Math_atan2"
    and "is_fin (fst a)" and "is_fin (snd a)" and "is_fin (fst b)" and "is_fin (snd b)"
  shows "Angle_num Math_atan2 a b =
           num_sub (Val Math_PI)
             (Math_atan2 (num_sub (snd b) (snd a)) (num_sub (fst b) (fst a))) \<and>
         (\<exists>v. Angle_num Math_atan2 a b = Val v \<and> 0 \<le> v \<and> v \<le> 2 * Math_PI)"
proof -
  define t where "t = Math_atan2 (num_sub (snd b) (snd a)) (num_sub (fst b) (fst a))"
  have "num_sub (snd b) (snd a) \<noteq> NaN" "num_sub (fst b) (fst a) \<noteq> NaN"
    using assms(2-5) by (simp_all add: num_sub_not_NaN)
  with assms(1) have t: "is_fin t" "- Math_PI \<le> val t" "val t \<le> Math_PI"
    unfolding atan2_in_range_def t_def by blast+
  from num_sub_Math_PI[OF t] obtain v where
    v: "num_sub (Val Math_PI) t = Val v" "0 \<le> v" "v \<le> 2 * Math_PI" by blast
  have "\<not> num_lt (Val v) (Val 0)" using v(2) by (simp add: num_lt_def)
  then have "Angle_num Math_atan2 a b = num_sub (Val Math_PI) t"
    by (simp add: Angle_num_def Let_def t_def[symmetric] v(1))
  with v show ?thesis unfolding t_def by simp
qed

lemma atan2_nearest_in_range: "atan2_in_range atan2_nearest"
proof -
  have p: "0 < Math_PI" by (rule Math_PI_pos)
  have "is_fin (atan2_nearest y x) \<and> - Math_PI \<le> val (atan2_nearest y x) \<and>
        val (atan2_nearest y x) \<le> Math_PI" if "y \<noteq> NaN" "x \<noteq> NaN" for y x
    using that p by (simp add: atan2_nearest_def Let_def)
  then show ?thesis unfolding atan2_in_range_def by blast
qed

text \<open>C9, an instance: from the origin to \<open>(3, 0)\<close>, the angle \<^verbatim>\<open>Math.PI\<close>.\<close>

theorem Angle_num_range_witness:
  "atan2_in_range atan2_nearest \<and>
   is_fin (fst (Val 0, Val 0)) \<and> is_fin (snd (Val 0, Val 0)) \<and>
   is_fin (fst (Val 3, Val 0)) \<and> is_fin (snd (Val 3, Val 0)) \<and>
   Angle_num atan2_nearest (Val 0, Val 0) (Val 3, Val 0) =
     num_sub (Val Math_PI)
       (atan2_nearest (num_sub (snd (Val 3, Val 0)) (snd (Val 0, Val 0)))
          (num_sub (fst (Val 3, Val 0)) (fst (Val 0, Val 0)))) \<and>
   (\<exists>v. Angle_num atan2_nearest (Val 0, Val 0) (Val 3, Val 0) = Val v \<and> 0 \<le> v \<and> v \<le> 2 * Math_PI) \<and>
   Angle_num atan2_nearest (Val 0, Val 0) (Val 3, Val 0) = Val Math_PI"
proof -
  have f: "is_fin (fst (Val 0, Val 0))" "is_fin (snd (Val 0, Val 0))"
    "is_fin (fst (Val 3, Val 0))" "is_fin (snd (Val 3, Val 0))" by simp_all
  have d: "num_sub (Val 0) (Val 0) = Val 0" "num_sub (Val 3) (Val 0) = Val 3"
    by (simp_all add: num_sub_def num_add_def round64_def Let_def)
  have t: "atan2_nearest (Val 0) (Val 3) = Val 0" by (simp add: atan2_nearest_def)
  have "Math_PI < 2 ^ 1024" by (simp add: Math_PI_def)
  with Math_PI_pos have "\<bar>Math_PI\<bar> < 2 ^ 1024" by simp
  from round64_exact[OF fl_Math_PI this, of False] Math_PI_pos
  have s: "num_sub (Val Math_PI) (Val 0) = Val Math_PI"
    by (simp add: num_sub_def num_add_def)
  have e: "Angle_num atan2_nearest (Val 0, Val 0) (Val 3, Val 0) = Val Math_PI"
    using Math_PI_pos by (simp add: Angle_num_def Let_def d t s num_lt_def)
  from Angle_num_range [OF atan2_nearest_in_range f] atan2_nearest_in_range f e
  show ?thesis by blast
qed

text \<open>
  C9 as stated fails at the upper end. The segment from the origin to \<open>(-1, -0)\<close> points in
  the negative X direction, as the one to \<open>(-1, 0)\<close> does, for which the angle is \<open>0\<close>. The
  difference of the second coordinates is \<open>-0\<close>, \<^verbatim>\<open>Math.atan2(-0, -1)\<close> is \<^verbatim>\<open>-Math.PI\<close>, and
  \<^verbatim>\<open>Angle\<close> returns \<^verbatim>\<open>2 * Math.PI\<close>, which is not below \<^verbatim>\<open>2 * Math.PI\<close>.
\<close>

theorem Angle_num_counterexample:
  "Angle_num atan2_nearest (Val 0, Val 0) (Val (- 1), NegZero) = Val (2 * Math_PI) \<and>
   \<not> num_lt (Angle_num atan2_nearest (Val 0, Val 0) (Val (- 1), NegZero)) (Val (2 * Math_PI)) \<and>
   Angle_num atan2_nearest (Val 0, Val 0) (Val (- 1), Val 0) = Val 0"
proof -
  have d: "num_sub NegZero (Val 0) = NegZero" "num_sub (Val (- 1)) (Val 0) = Val (- 1)"
    "num_sub (Val 0) (Val 0) = Val 0"
    by (simp_all add: num_sub_def num_add_def round64_def Let_def)
  have t: "atan2_nearest NegZero (Val (- 1)) = Val (- Math_PI)"
    "atan2_nearest (Val 0) (Val (- 1)) = Val Math_PI"
    by (simp_all add: atan2_nearest_def)
  have s: "num_sub (Val Math_PI) (Val (- Math_PI)) = Val (2 * Math_PI)"
    using Math_PI_pos fl_two_Math_PI
    by (simp add: num_sub_def num_add_def round64_def Let_def Math_PI_def)
  have s0: "num_sub (Val Math_PI) (Val Math_PI) = Val 0"
    using Math_PI_pos by (simp add: num_sub_def num_add_def round64_def Let_def)
  have e: "Angle_num atan2_nearest (Val 0, Val 0) (Val (- 1), NegZero) = Val (2 * Math_PI)"
    using Math_PI_pos by (simp add: Angle_num_def Let_def d t s num_lt_def)
  have e0: "Angle_num atan2_nearest (Val 0, Val 0) (Val (- 1), Val 0) = Val 0"
    by (simp add: Angle_num_def Let_def d t s0 num_lt_def)
  from e e0 show ?thesis by (simp add: num_lt_def)
qed

subsection \<open>A collinear edge that the engine reports as crossing\<close>

lemma fl_round_div:
  assumes "expo x = e" and "e \<le> 52" and "rne (x * 2 ^ nat (52 - e)) = m"
  shows "fl x = of_int m / 2 ^ nat (52 - e)"
proof -
  have "(2::real) powi (e - 52) = 2 powi (- int (nat (52 - e)))" using assms(2) by simp
  also have "\<dots> = inverse (2 ^ nat (52 - e))" by (simp only: power_int_minus power_int_of_nat)
  finally have u: "ulp x = inverse (2 ^ nat (52 - e))" by (simp add: ulp_def assms(1))
  have "x / ulp x = x * 2 ^ nat (52 - e)" by (simp add: u divide_inverse)
  then show ?thesis by (simp add: fl_def assms(3)) (simp add: u divide_inverse)
qed

text \<open>The points \<open>(-1, 3)\<close>, \<open>(0, 5/3)\<close>, \<open>(2, -1)\<close> and \<open>(3, -7/3)\<close> lie on one line. As
  Numbers the quotients are \<open>7505999378950827 / 2\<^sup>5\<^sup>2\<close> and \<open>- 5254199565265579 / 2\<^sup>5\<^sup>1\<close>.\<close>

lemma r1_quotients:
  "num_div (Val 5) (Val 3) = Val (7505999378950827 / 4503599627370496)"
  "num_div (Val (- 7)) (Val 3) = Val (- (5254199565265579 / 2251799813685248))"
proof -
  have e1: "expo (5 / 3) = 0" by (rule expo_eqI) (simp_all add: power_int_def)
  have "fl (5 / 3) = of_int 7505999378950827 / 2 ^ nat (52 - 0)"
    by (rule fl_round_div[OF e1]) (simp_all add: rne_def Let_def)
  then have f1: "fl (5 / 3) = 7505999378950827 / 4503599627370496" by simp
  have e2: "expo (- (7 / 3)) = 1" by (rule expo_eqI) (simp_all add: power_int_def)
  have "fl (- (7 / 3)) = of_int (- 5254199565265579) / 2 ^ nat (52 - 1)"
    by (rule fl_round_div[OF e2]) (simp_all add: rne_def Let_def)
  then have f2: "fl (- (7 / 3)) = - (5254199565265579 / 2251799813685248)" by simp
  show "num_div (Val 5) (Val 3) = Val (7505999378950827 / 4503599627370496)"
    by (simp add: num_div_def round64_def Let_def f1)
  show "num_div (Val (- 7)) (Val 3) = Val (- (5254199565265579 / 2251799813685248))"
    using f2 by (simp add: num_div_def round64_def Let_def)
qed

lemma r1_fl:
  "fl (- (3002399751580331 / 2251799813685248)) = - (3002399751580331 / 2251799813685248)"
  "fl (- (6004799503160661 / 4503599627370496)) = - (6004799503160661 / 4503599627370496)"
  "fl (1 / 4503599627370496) = 1 / 4503599627370496"
  "fl (- (9007199254740993 / 2251799813685248)) = - 4"
  "fl (- (18014398509481983 / 4503599627370496)) = - 4"
proof -
  show "fl (- (3002399751580331 / 2251799813685248)) = - (3002399751580331 / 2251799813685248)"
    by (rule fl_exact_div[of _ 51 "- 3002399751580331"]) simp_all
  show "fl (- (6004799503160661 / 4503599627370496)) = - (6004799503160661 / 4503599627370496)"
    by (rule fl_exact_div[of _ 52 "- 6004799503160661"]) simp_all
  show "fl (1 / 4503599627370496) = 1 / 4503599627370496"
    by (rule fl_exact_div[of _ 52 1]) simp_all
  have e1: "expo (- (9007199254740993 / 2251799813685248)) = 2"
    by (rule expo_eqI) (simp_all add: power_int_def)
  have "fl (- (9007199254740993 / 2251799813685248)) = of_int (- 4503599627370496) / 2 ^ nat (52 - 2)"
    by (rule fl_round_div[OF e1]) (simp_all add: rne_def Let_def)
  then show "fl (- (9007199254740993 / 2251799813685248)) = - 4" by simp
  have e2: "expo (- (18014398509481983 / 4503599627370496)) = 1"
    by (rule expo_eqI) (simp_all add: power_int_def)
  have "fl (- (18014398509481983 / 4503599627370496)) = of_int (- 9007199254740992) / 2 ^ nat (52 - 1)"
    by (rule fl_round_div[OF e2]) (simp_all add: rne_def Let_def)
  then show "fl (- (18014398509481983 / 4503599627370496)) = - 4" by simp
qed

lemma fl_small_ints [simp]: "fl 2 = 2" "fl (- 4) = - 4"
  using fl_of_int[of 2] fl_of_int[of "- 4"] by simp_all

lemma r1_differences:
  "num_sub (Val 3) (Val 2) = Val 1"
  "num_sub (Val (- (5254199565265579 / 2251799813685248))) (Val (- 1)) =
     Val (- (3002399751580331 / 2251799813685248))"
  "num_sub (Val 0) (Val (- 1)) = Val 1"
  "num_sub (Val (7505999378950827 / 4503599627370496)) (Val 3) =
     Val (- (6004799503160661 / 4503599627370496))"
  "num_sub (Val 2) (Val (- 1)) = Val 3"
  "num_sub (Val (- 1)) (Val 3) = Val (- 4)"
  by (simp_all add: num_sub_def num_add_def round64_def Let_def r1_fl)

lemma r1_products:
  "num_mul (Val 1) (Val (- (6004799503160661 / 4503599627370496))) =
     Val (- (6004799503160661 / 4503599627370496))"
  "num_mul (Val 1) (Val (- (3002399751580331 / 2251799813685248))) =
     Val (- (3002399751580331 / 2251799813685248))"
  "num_mul (Val 1) (Val (- 4)) = Val (- 4)"
  "num_mul (Val (- (3002399751580331 / 2251799813685248))) (Val 3) = Val (- 4)"
  "num_mul (Val (- (6004799503160661 / 4503599627370496))) (Val 3) = Val (- 4)"
  by (simp_all add: num_mul_def round64_def Let_def r1_fl)

lemma r1_numerators:
  "num_sub (Val (- (6004799503160661 / 4503599627370496)))
           (Val (- (3002399751580331 / 2251799813685248))) = Val (1 / 4503599627370496)"
  "num_sub (Val (- 4)) (Val (- 4)) = Val 0"
  by (simp_all add: num_sub_def num_add_def round64_def Let_def r1_fl)

text \<open>The edge from \<open>(2, -1)\<close> to \<open>(3, -7/3)\<close> against the edge from \<open>(-1, 3)\<close> to \<open>(0, 5/3)\<close>:
  the two products \<open>3 \<sqdot> s10_y\<close> and \<open>3 \<sqdot> s32_y\<close> of lines 464 and 470 are both rounded to
  \<open>-4\<close>, both numerators are \<open>0\<close>, and an intersection is reported. Without rounding, on
  the same eight values, neither numerator is \<open>0\<close> and there is none.\<close>

lemma r1_edge_test:
  "IntersectsQ_num ((Val 2, Val (- 1)), (Val 3, num_div (Val (- 7)) (Val 3)))
                   ((Val (- 1), Val 3), (Val 0, num_div (Val 5) (Val 3))) = True \<and>
   IntersectsQ ((2, - 1), (3, - (5254199565265579 / 2251799813685248)))
               ((- 1, 3), (0, 7505999378950827 / 4503599627370496)) = False"
proof -
  have "IntersectsQ_num ((Val 2, Val (- 1)), (Val 3, num_div (Val (- 7)) (Val 3)))
                   ((Val (- 1), Val 3), (Val 0, num_div (Val 5) (Val 3))) = True"
    by (simp add: IntersectsQ_num_def getLineLineCollision_num_def Let_def r1_quotients
          r1_differences r1_products r1_numerators num_eq_def num_lt_def num_gt_def)
  moreover have "IntersectsQ ((2, - 1), (3, - (5254199565265579 / 2251799813685248)))
               ((- 1, 3), (0, 7505999378950827 / 4503599627370496)) = False"
    by (simp add: IntersectsQ_def getLineLineCollision_def Let_def)
  ultimately show ?thesis by simp
qed

section \<open>The arrays as objects in a store\<close>

text \<open>
  The arrays that \<^verbatim>\<open>calculate\<close> receives, builds and changes in place are objects: a variable
  holds a reference. The store maps each reference to the array's present contents;
  \<open>next_ref\<close> is the first reference not in use. Points are never written to, so an array
  holds point values. Arrays that are only read after they are built (the results of
  \<^verbatim>\<open>NearestPoints\<close> and \<^verbatim>\<open>SortByAngle\<close>) stay values.
\<close>

record store =
  arrays :: "nat \<Rightarrow> point list"
  next_ref :: nat

text \<open>The array literal \<^verbatim>\<open>[]\<close>: a new, empty array.\<close>

definition new_array :: "store \<Rightarrow> nat \<times> store" where
  "new_array s =
     (next_ref s, s\<lparr>arrays := (arrays s)(next_ref s := []), next_ref := Suc (next_ref s)\<rparr>)"

text \<open>\<^verbatim>\<open>points.push(point)\<close>.\<close>

definition push :: "nat \<Rightarrow> point \<Rightarrow> store \<Rightarrow> store" where
  "push points point s = s\<lparr>arrays := (arrays s)(points := arrays s points @ [point])\<rparr>"

text \<open>\<^verbatim>\<open>AddPoint(points, point)\<close>, lines 218-221: pushes in place and returns the same
  reference.\<close>

definition AddPoint_st :: "nat \<Rightarrow> point \<Rightarrow> store \<Rightarrow> nat \<times> store" where
  "AddPoint_st points point s = (points, push points point s)"

text \<open>\<^verbatim>\<open>RemovePoint(points, point)\<close>, lines 203-210: \<^verbatim>\<open>points.splice(i, 1)\<close> at the first
  match changes the array in place and the same reference is returned; without a match
  nothing is written and the result is \<^verbatim>\<open>undefined\<close>.\<close>

definition RemovePoint_st :: "nat \<Rightarrow> point \<Rightarrow> store \<Rightarrow> nat option \<times> store" where
  "RemovePoint_st points point s =
     (case RemovePoint (arrays s points) point of
        None \<Rightarrow> (None, s)
      | Some rest \<Rightarrow> (Some points, s\<lparr>arrays := (arrays s)(points := rest)\<rparr>))"

text \<open>\<^verbatim>\<open>multiDimensionalUnique(arr)\<close>, lines 421-431: \<^verbatim>\<open>uniques\<close> is a new array; the loop
  reads \<^verbatim>\<open>arr[i]\<close> from the store as it is in that pass, for \<open>i\<close> below the length \<open>l\<close> taken
  at the start.\<close>

function multiDimensionalUnique_st_loop ::
  "nat \<Rightarrow> nat \<Rightarrow> nat \<Rightarrow> nat \<Rightarrow> (point \<rightharpoonup> bool) \<Rightarrow> store \<Rightarrow> store" where
  "multiDimensionalUnique_st_loop arr uniques i l itemsFound s =
     (if i < l then
        let a = arrays s arr ! i
        in if itemsFound a = Some True
           then multiDimensionalUnique_st_loop arr uniques (i + 1) l itemsFound s
           else multiDimensionalUnique_st_loop arr uniques (i + 1) l (itemsFound(a \<mapsto> True))
                  (push uniques a s)
      else s)"
  by pat_completeness auto
termination
  by (relation "measure (\<lambda>(arr, uniques, i, l, itemsFound, s). l - i)") auto

definition multiDimensionalUnique_st :: "nat \<Rightarrow> store \<Rightarrow> nat \<times> store" where
  "multiDimensionalUnique_st arr s =
     (let (uniques, s) = new_array s
      in (uniques,
          multiDimensionalUnique_st_loop arr uniques 0 (length (arrays s arr)) Map.empty s))"

definition CleanList_st :: "nat \<Rightarrow> store \<Rightarrow> nat \<times> store" where
  "CleanList_st points s = multiDimensionalUnique_st points s"

datatype result_st = Null_st | Hull_st nat | Thrown_st

datatype loop_exit_st = Intersecting_st | Closed_st nat nat | NoDataset_st

text \<open>The main loop of lines 83-145 on the store: \<open>dataset\<close> and \<open>hullv\<close> are references.
  The loop is written as it stands, for any two references; that it ends is shown for the
  list model above, and here a loop that does not end has the value \<open>None\<close>.\<close>

partial_function (option) main_loop_st ::
  "point \<Rightarrow> int \<Rightarrow> nat \<Rightarrow> nat \<Rightarrow> nat \<Rightarrow> point \<Rightarrow> real \<Rightarrow> nat \<Rightarrow> store
     \<Rightarrow> (loop_exit_st \<times> store) option" where
  "main_loop_st firstPoint kk stop dataset hullv currentPoint previousAngle step s =
     (if (\<not> pointEquals currentPoint firstPoint \<or> step = 2) \<and> length (arrays s dataset) > 0 then
        let s = (if step = stop then snd (AddPoint_st dataset firstPoint s) else s);
            kNearestPoints = NearestPoints (arrays s dataset) currentPoint kk;
            cPoints = SortByAngle kNearestPoints currentPoint previousAngle;
            found = candidate_loop firstPoint (arrays s hullv) step cPoints True 0
        in if fst found = True then Some (Intersecting_st, s)
           else
             let currentPoint = cPoints ! (snd found - 1);
                 s = snd (AddPoint_st hullv currentPoint s);
                 previousAngle = Angle (arrays s hullv ! (step - 2)) (arrays s hullv ! (step - 1));
                 removed = RemovePoint_st dataset currentPoint s
             in case fst removed of
                  None \<Rightarrow> Some (NoDataset_st, snd removed)
                | Some dataset \<Rightarrow>
                    main_loop_st firstPoint kk stop dataset hullv currentPoint previousAngle
                      (step + 1) (snd removed)
      else Some (Closed_st hullv dataset, s))"

text \<open>\<^verbatim>\<open>calculate(pointsList, k)\<close>, lines 32-163, on the store: \<open>pointsList\<close> is the reference
  the caller passes, the result is \<^verbatim>\<open>null\<close> or the reference returned, with the store as
  the call leaves it.\<close>

partial_function (option) calculate_st ::
  "nat \<Rightarrow> int \<Rightarrow> store \<Rightarrow> (result_st \<times> store) option" where
  "calculate_st pointsList k s =
     (let kk = max k 3
      in if kk \<ge> int (length (arrays s pointsList)) then Some (Null_st, s)
         else
           let cleaned = CleanList_st pointsList s;
               dataset = fst cleaned;
               s = snd cleaned
           in if length (arrays s dataset) < 3 then Some (Null_st, s)
              else if length (arrays s dataset) = 3 then Some (Hull_st dataset, s)
              else
                let kk = min kk (int (length (arrays s dataset)) - 1)
                in case FindMinYPoint (arrays s dataset) of
                     None \<Rightarrow> Some (Thrown_st, s)
                   | Some firstPointId \<Rightarrow>
                       (let firstPoint = arrays s dataset ! firstPointId;
                            fresh = new_array s;
                            hullv = fst fresh;
                            s = push hullv (arrays (snd fresh) dataset ! firstPointId) (snd fresh);
                            currentPoint = firstPoint;
                            removed = RemovePoint_st dataset firstPoint s
                        in (case fst removed of
                              None \<Rightarrow> Some (Thrown_st, snd removed)
                            | Some dataset \<Rightarrow>
                                (case main_loop_st firstPoint kk (2 + nat kk) dataset hullv
                                        currentPoint pi 2 (snd removed) of
                                   None \<Rightarrow> None
                                 | Some (Intersecting_st, s) \<Rightarrow> calculate_st pointsList (kk + 1) s
                                 | Some (NoDataset_st, s) \<Rightarrow> Some (Thrown_st, s)
                                 | Some (Closed_st hullv dataset, s) \<Rightarrow>
                                     (let allInside =
                                            allInside_loop (arrays s dataset) (arrays s hullv) True
                                              (int (length (arrays s dataset)) - 1)
                                      in if allInside = False
                                         then calculate_st pointsList (kk + 1) s
                                         else Some (Hull_st hullv, s))))))"

declare multiDimensionalUnique_st_loop.simps [simp del]

lemma new_array_frame:
  "new_array s = (a, s') \<Longrightarrow>
   a = next_ref s \<and> next_ref s' = Suc (next_ref s) \<and> arrays s' a = [] \<and>
   (\<forall>b. b \<noteq> a \<longrightarrow> arrays s' b = arrays s b)"
  by (auto simp: new_array_def)

lemma push_frame:
  "next_ref (push a p s) = next_ref s \<and> (\<forall>b. b \<noteq> a \<longrightarrow> arrays (push a p s) b = arrays s b)"
  by (simp add: push_def)

lemma AddPoint_st_frame:
  "next_ref (snd (AddPoint_st a p s)) = next_ref s \<and>
   (\<forall>b. b \<noteq> a \<longrightarrow> arrays (snd (AddPoint_st a p s)) b = arrays s b)"
  by (simp add: AddPoint_st_def push_def)

lemma RemovePoint_st_frame:
  "next_ref (snd (RemovePoint_st a p s)) = next_ref s \<and>
   (\<forall>b. b \<noteq> a \<longrightarrow> arrays (snd (RemovePoint_st a p s)) b = arrays s b) \<and>
   (\<forall>a'. fst (RemovePoint_st a p s) = Some a' \<longrightarrow> a' = a)"
  by (simp add: RemovePoint_st_def split: option.split)

lemma multiDimensionalUnique_st_loop_frame:
  "next_ref (multiDimensionalUnique_st_loop arr u i l f s) = next_ref s \<and>
   (\<forall>b. b \<noteq> u \<longrightarrow> arrays (multiDimensionalUnique_st_loop arr u i l f s) b = arrays s b)"
proof (induction arr u i l f s rule: multiDimensionalUnique_st_loop.induct)
  case (1 arr u i l f s)
  show ?case
  proof (cases "i < l")
    case True
    show ?thesis
    proof (cases "f (arrays s arr ! i) = Some True")
      case found: True
      have unf: "multiDimensionalUnique_st_loop arr u i l f s =
          multiDimensionalUnique_st_loop arr u (i + 1) l f s"
        by (subst multiDimensionalUnique_st_loop.simps) (simp only: True found Let_def if_True simp_thms)
      from "1.IH"(1)[OF True refl found] show ?thesis unfolding unf .
    next
      case nf: False
      let ?a = "arrays s arr ! i"
      let ?r = "multiDimensionalUnique_st_loop arr u (i + 1) l (f(?a \<mapsto> True)) (push u ?a s)"
      have unf: "multiDimensionalUnique_st_loop arr u i l f s = ?r"
        by (subst multiDimensionalUnique_st_loop.simps) (simp only: True nf Let_def if_True if_False simp_thms)
      from "1.IH"(2)[OF True refl nf] have
        a: "next_ref ?r = next_ref (push u ?a s)" and
        b: "\<And>b. b \<noteq> u \<Longrightarrow> arrays ?r b = arrays (push u ?a s) b"
        by blast+
      from push_frame[of u ?a s] have
        c: "next_ref (push u ?a s) = next_ref s" and
        d: "\<And>b. b \<noteq> u \<Longrightarrow> arrays (push u ?a s) b = arrays s b"
        by blast+
      show ?thesis unfolding unf using a b c d by metis
    qed
  next
    case False
    then show ?thesis by (subst (1 2) multiDimensionalUnique_st_loop.simps) simp
  qed
qed

lemma CleanList_st_frame:
  "fst (CleanList_st pl s) = next_ref s \<and>
   next_ref (snd (CleanList_st pl s)) = Suc (next_ref s) \<and>
   (\<forall>b. b \<noteq> next_ref s \<longrightarrow> arrays (snd (CleanList_st pl s)) b = arrays s b)"
  using multiDimensionalUnique_st_loop_frame
  by (simp add: CleanList_st_def multiDimensionalUnique_st_def new_array_def Let_def)

lemma main_loop_st_frame:
  assumes "main_loop_st fp kk stop d hl cur prev step s = Some y"
  shows "next_ref (snd y) = next_ref s \<and> (\<forall>b. b \<noteq> d \<and> b \<noteq> hl \<longrightarrow> arrays (snd y) b = arrays s b)"
proof (rule main_loop_st.raw_induct[OF _ assms])
  fix f :: "point \<Rightarrow> int \<Rightarrow> nat \<Rightarrow> nat \<Rightarrow> nat \<Rightarrow> point \<Rightarrow> real \<Rightarrow> nat \<Rightarrow> store
     \<Rightarrow> (loop_exit_st \<times> store) option"
    and fp :: point and kk :: int and stop :: nat and d :: nat and hl :: nat and cur :: point
    and prev :: real and step :: nat and s :: store and y :: "loop_exit_st \<times> store"
  assume IH: "\<And>fp kk stop d hl cur prev step s y. f fp kk stop d hl cur prev step s = Some y \<Longrightarrow>
      next_ref (snd y) = next_ref s \<and> (\<forall>b. b \<noteq> d \<and> b \<noteq> hl \<longrightarrow> arrays (snd y) b = arrays s b)"
  let ?s1 = "if step = stop then snd (AddPoint_st d fp s) else s"
  let ?cs = "SortByAngle (NearestPoints (arrays ?s1 d) cur kk) cur prev"
  let ?found = "candidate_loop fp (arrays ?s1 hl) step ?cs True 0"
  let ?c = "?cs ! (snd ?found - 1)"
  let ?s2 = "snd (AddPoint_st hl ?c ?s1)"
  let ?prev = "Angle (arrays ?s2 hl ! (step - 2)) (arrays ?s2 hl ! (step - 1))"
  let ?removed = "RemovePoint_st d ?c ?s2"
  assume body: "(if (\<not> pointEquals cur fp \<or> step = 2) \<and> 0 < length (arrays s d)
      then let s = if step = stop then snd (AddPoint_st d fp s) else s;
               kNearestPoints = NearestPoints (arrays s d) cur kk;
               cPoints = SortByAngle kNearestPoints cur prev;
               found = candidate_loop fp (arrays s hl) step cPoints True 0
           in if fst found = True then Some (Intersecting_st, s)
              else let currentPoint = cPoints ! (snd found - 1);
                       s = snd (AddPoint_st hl currentPoint s);
                       previousAngle = Angle (arrays s hl ! (step - 2)) (arrays s hl ! (step - 1));
                       removed = RemovePoint_st d currentPoint s
                   in case fst removed of
                      None \<Rightarrow> Some (NoDataset_st, snd removed)
                      | Some dataset \<Rightarrow>
                          f fp kk stop dataset hl currentPoint previousAngle (step + 1) (snd removed)
      else Some (Closed_st hl d, s)) = Some y"
  have f1: "next_ref ?s1 = next_ref s" "\<And>b. b \<noteq> d \<Longrightarrow> arrays ?s1 b = arrays s b"
    using AddPoint_st_frame[of d fp s] by auto
  have f2: "next_ref ?s2 = next_ref ?s1" "\<And>b. b \<noteq> hl \<Longrightarrow> arrays ?s2 b = arrays ?s1 b"
    using AddPoint_st_frame[of hl ?c ?s1] by blast+
  have f3: "next_ref (snd ?removed) = next_ref ?s2"
    "\<And>b. b \<noteq> d \<Longrightarrow> arrays (snd ?removed) b = arrays ?s2 b"
    "\<And>a'. fst ?removed = Some a' \<Longrightarrow> a' = d"
    using RemovePoint_st_frame[of d ?c ?s2] by blast+
  show "next_ref (snd y) = next_ref s \<and> (\<forall>b. b \<noteq> d \<and> b \<noteq> hl \<longrightarrow> arrays (snd y) b = arrays s b)"
  proof (cases "(\<not> pointEquals cur fp \<or> step = 2) \<and> 0 < length (arrays s d)")
    case False
    with body have "y = (Closed_st hl d, s)" by (simp only: if_False option.inject simp_thms)
    then show ?thesis by simp
  next
    case True
    with body have body1: "(if fst ?found = True then Some (Intersecting_st, ?s1)
       else case fst ?removed of
              None \<Rightarrow> Some (NoDataset_st, snd ?removed)
            | Some dataset \<Rightarrow> f fp kk stop dataset hl ?c ?prev (step + 1) (snd ?removed)) = Some y"
      by (simp only: if_True Let_def simp_thms)
    show ?thesis
    proof (cases "fst ?found = True")
      case t: True
      with body1 have "y = (Intersecting_st, ?s1)" by (simp only: if_True option.inject simp_thms)
      with f1 show ?thesis by simp
    next
      case nt: False
      with body1 have body2: "(case fst ?removed of
              None \<Rightarrow> Some (NoDataset_st, snd ?removed)
            | Some dataset \<Rightarrow> f fp kk stop dataset hl ?c ?prev (step + 1) (snd ?removed)) = Some y"
        by (simp only: if_False simp_thms)
      have r: "next_ref (snd ?removed) = next_ref s"
        "\<And>b. b \<noteq> d \<Longrightarrow> b \<noteq> hl \<Longrightarrow> arrays (snd ?removed) b = arrays s b"
        using f1 f2 f3(1,2) by metis+
      show ?thesis
      proof (cases "fst ?removed")
        case None
        with body2 have "y = (NoDataset_st, snd ?removed)" by (simp only: option.case option.inject simp_thms)
        with r show ?thesis by simp
      next
        case (Some d')
        with f3(3) have d': "d' = d" by blast
        from body2 Some d' have "f fp kk stop d hl ?c ?prev (step + 1) (snd ?removed) = Some y"
          by (simp only: option.case simp_thms)
        from IH[OF this] r show ?thesis by metis
      qed
    qed
  qed
qed

lemma calculate_st_frame:
  assumes "calculate_st pointsList k s = Some y"
  shows "pointsList < next_ref s \<longrightarrow>
         arrays (snd y) pointsList = arrays s pointsList \<and> next_ref s \<le> next_ref (snd y)"
proof (rule calculate_st.raw_induct[OF _ assms])
  fix f :: "nat \<Rightarrow> int \<Rightarrow> store \<Rightarrow> (result_st \<times> store) option"
    and pl :: nat and k :: int and s :: store and y :: "result_st \<times> store"
  assume IH: "\<And>pl k s y. f pl k s = Some y \<Longrightarrow>
      pl < next_ref s \<longrightarrow> arrays (snd y) pl = arrays s pl \<and> next_ref s \<le> next_ref (snd y)"
  let ?s1 = "snd (CleanList_st pl s)"
  let ?d = "fst (CleanList_st pl s)"
  let ?kk = "min (max k 3) (int (length (arrays ?s1 ?d)) - 1)"
  assume body: "(let kk = max k 3
      in if int (length (arrays s pl)) \<le> kk then Some (Null_st, s)
         else let cleaned = CleanList_st pl s;
                  dataset = fst cleaned; s = snd cleaned
              in if length (arrays s dataset) < 3 then Some (Null_st, s)
                 else if length (arrays s dataset) = 3
                      then Some (Hull_st dataset, s)
                      else let kk = min kk (int (length (arrays s dataset)) - 1)
                           in case FindMinYPoint (arrays s dataset) of
                              None \<Rightarrow> Some (Thrown_st, s)
                              | Some firstPointId \<Rightarrow>
                                  let firstPoint = arrays s dataset ! firstPointId;
                                      fresh = new_array s; hullv = fst fresh;
                                      s = push hullv (arrays (snd fresh) dataset ! firstPointId) (snd fresh);
                                      currentPoint = firstPoint;
                                      removed = RemovePoint_st dataset firstPoint s
                                  in case fst removed of
                                     None \<Rightarrow> Some (Thrown_st, snd removed)
                                     | Some dataset \<Rightarrow>
                                         case main_loop_st firstPoint kk (2 + nat kk) dataset hullv
                                                currentPoint pi 2 (snd removed) of
                                           None \<Rightarrow> None
                                         | Some (Intersecting_st, s) \<Rightarrow> f pl (kk + 1) s
                                         | Some (Closed_st hullv dataset, s) \<Rightarrow>
                                             let allInside =
                                                   allInside_loop (arrays s dataset) (arrays s hullv) True
                                                    (int (length (arrays s dataset)) - 1)
                                             in if allInside = False then f pl (kk + 1) s
                                                else Some (Hull_st hullv, s)
                                         | Some (NoDataset_st, s) \<Rightarrow> Some (Thrown_st, s)) =
     Some y"
  show "pl < next_ref s \<longrightarrow> arrays (snd y) pl = arrays s pl \<and> next_ref s \<le> next_ref (snd y)"
  proof
    assume alloc: "pl < next_ref s"
    have c: "?d = next_ref s" "next_ref ?s1 = Suc (next_ref s)"
      "\<And>b. b \<noteq> next_ref s \<Longrightarrow> arrays ?s1 b = arrays s b"
      using CleanList_st_frame[of pl s] by blast+
    have s1: "arrays ?s1 pl = arrays s pl" "next_ref s \<le> next_ref ?s1" "pl \<noteq> ?d"
      using c alloc by simp_all
    show "arrays (snd y) pl = arrays s pl \<and> next_ref s \<le> next_ref (snd y)"
    proof (cases "int (length (arrays s pl)) \<le> max k 3")
      case True
      with body have "y = (Null_st, s)" by (simp add: Let_def)
      then show ?thesis by simp
    next
      case g: False
      show ?thesis
      proof (cases "length (arrays ?s1 ?d) < 3 \<or> length (arrays ?s1 ?d) = 3")
        case True
        with body g have "snd y = ?s1" by (auto simp: Let_def split: if_splits)
        with s1 show ?thesis by simp
      next
        case n: False
        show ?thesis
        proof (cases "FindMinYPoint (arrays ?s1 ?d)")
          case None
          with body g n have "snd y = ?s1" by (auto simp: Let_def split: if_splits)
          with s1 show ?thesis by simp
        next
          case (Some i)
          let ?fp = "arrays ?s1 ?d ! i"
          let ?hl = "fst (new_array ?s1)"
          let ?s2 = "push ?hl (arrays (snd (new_array ?s1)) ?d ! i) (snd (new_array ?s1))"
          let ?rem = "RemovePoint_st ?d ?fp ?s2"
          have h: "?hl = next_ref ?s1" "next_ref ?s2 = Suc (next_ref ?s1)"
            "\<And>b. b \<noteq> next_ref ?s1 \<Longrightarrow> arrays ?s2 b = arrays ?s1 b"
            by (simp_all add: new_array_def push_def)
          have r: "next_ref (snd ?rem) = next_ref ?s2"
            "\<And>b. b \<noteq> ?d \<Longrightarrow> arrays (snd ?rem) b = arrays ?s2 b"
            "\<And>a'. fst ?rem = Some a' \<Longrightarrow> a' = ?d"
            using RemovePoint_st_frame[of ?d ?fp ?s2] by blast+
          have plhl: "pl \<noteq> ?hl" using h(1) c(2) alloc by simp
          have sr: "arrays (snd ?rem) pl = arrays s pl" "next_ref s \<le> next_ref (snd ?rem)"
            using r(1,2) h c s1 alloc by simp_all
          from body g n Some have body1:
            "(case fst ?rem of
                None \<Rightarrow> Some (Thrown_st, snd ?rem)
              | Some dataset \<Rightarrow>
                  case main_loop_st ?fp ?kk (2 + nat ?kk) dataset ?hl ?fp pi 2 (snd ?rem) of
                    None \<Rightarrow> None
                  | Some (Intersecting_st, s) \<Rightarrow> f pl (?kk + 1) s
                  | Some (Closed_st hullv dataset, s) \<Rightarrow>
                      let allInside =
                            allInside_loop (arrays s dataset) (arrays s hullv) True
                             (int (length (arrays s dataset)) - 1)
                      in if allInside = False then f pl (?kk + 1) s
                         else Some (Hull_st hullv, s)
                  | Some (NoDataset_st, s) \<Rightarrow> Some (Thrown_st, s)) = Some y"
            by (simp add: Let_def)
          show ?thesis
          proof (cases "fst ?rem")
            case None
            with body1 have "snd y = snd ?rem" by auto
            with sr show ?thesis by simp
          next
            case (Some d')
            with r(3) have d': "d' = ?d" by blast
            show ?thesis
            proof (cases "main_loop_st ?fp ?kk (2 + nat ?kk) ?d ?hl ?fp pi 2 (snd ?rem)")
              case None
              with body1 Some d' show ?thesis by simp
            next
              case ml: (Some z)
              from main_loop_st_frame[OF ml] have
                z: "next_ref (snd z) = next_ref (snd ?rem)"
                   "\<And>b. b \<noteq> ?d \<Longrightarrow> b \<noteq> ?hl \<Longrightarrow> arrays (snd z) b = arrays (snd ?rem) b"
                by blast+
              have sz: "arrays (snd z) pl = arrays s pl" "next_ref s \<le> next_ref (snd z)"
                "pl < next_ref (snd z)"
                using z(1) z(2)[OF s1(3) plhl] sr alloc by simp_all
              have rec: "arrays (snd y) pl = arrays s pl \<and> next_ref s \<le> next_ref (snd y)"
                if "f pl (?kk + 1) (snd z) = Some y"
                using IH[OF that] sz by simp
              obtain e sz' where zz: "z = (e, sz')" by (cases z)
              show ?thesis
              proof (cases e)
                case Intersecting_st
                with body1 Some d' ml zz have "f pl (?kk + 1) (snd z) = Some y" by simp
                then show ?thesis by (rule rec)
              next
                case (Closed_st hv dv)
                show ?thesis
                proof (cases "allInside_loop (arrays sz' dv) (arrays sz' hv) True
                                (int (length (arrays sz' dv)) - 1) = False")
                  case True
                  with body1 Some d' ml zz Closed_st have "f pl (?kk + 1) (snd z) = Some y"
                    by (simp add: Let_def)
                  then show ?thesis by (rule rec)
                next
                  case False
                  with body1 Some d' ml zz Closed_st have "snd y = snd z"
                    by (auto simp: Let_def)
                  with sz show ?thesis by simp
                qed
              next
                case NoDataset_st
                with body1 Some d' ml zz have "snd y = snd z" by auto
                with sz show ?thesis by simp
              qed
            qed
          qed
        qed
      qed
    qed
  qed
qed

text \<open>The rectangle in a store: the caller's array is object \<open>0\<close>.\<close>

definition e1_store :: store where
  "e1_store = \<lparr>arrays = (\<lambda>_. [])(0 := [(0, 0), (0, 3), (4, 3), (4, 0)]), next_ref = 1\<rparr>"

definition e1_store_final :: store where
  "e1_store_final =
     \<lparr>arrays = (\<lambda>_. [])(0 := [(0, 0), (0, 3), (4, 3), (4, 0)],
                          2 := [(0, 3), (4, 3), (4, 0), (0, 0)], 1 := []),
      next_ref = 3\<rparr>"

lemma e1_st_clean:
  "CleanList_st 0 e1_store =
     (1, \<lparr>arrays = (\<lambda>_. [])(0 := [(0, 0), (0, 3), (4, 3), (4, 0)],
                               1 := [(0, 0), (0, 3), (4, 3), (4, 0)]), next_ref = 2\<rparr>)"
  by (simp add: CleanList_st_def multiDimensionalUnique_st_def new_array_def e1_store_def Let_def
      multiDimensionalUnique_st_loop.simps push_def)

lemma e1_st_s2:
  "main_loop_st (0, 3) 3 5 1 2 (0, 3) pi 2
     \<lparr>arrays = (\<lambda>_. [])(0 := [(0, 0), (0, 3), (4, 3), (4, 0)],
                          2 := [(0, 3)], 1 := [(0, 0), (4, 3), (4, 0)]), next_ref = 3\<rparr> =
   main_loop_st (0, 3) 3 5 1 2 (4, 3) pi 3
     \<lparr>arrays = (\<lambda>_. [])(0 := [(0, 0), (0, 3), (4, 3), (4, 0)],
                          2 := [(0, 3), (4, 3)], 1 := [(0, 0), (4, 0)]), next_ref = 3\<rparr>"
  by (subst main_loop_st.simps)
     (simp add: e1_k3_s2_near e1_k3_s2_sort e1_k3_s2_cand e1_k3_s2_angle AddPoint_st_def push_def
        RemovePoint_st_def Let_def fun_eq_iff)

lemma e1_st_s3:
  "main_loop_st (0, 3) 3 5 1 2 (4, 3) pi 3
     \<lparr>arrays = (\<lambda>_. [])(0 := [(0, 0), (0, 3), (4, 3), (4, 0)],
                          2 := [(0, 3), (4, 3)], 1 := [(0, 0), (4, 0)]), next_ref = 3\<rparr> =
   main_loop_st (0, 3) 3 5 1 2 (4, 0) (3 * pi / 2) 4
     \<lparr>arrays = (\<lambda>_. [])(0 := [(0, 0), (0, 3), (4, 3), (4, 0)],
                          2 := [(0, 3), (4, 3), (4, 0)], 1 := [(0, 0)]), next_ref = 3\<rparr>"
  by (subst main_loop_st.simps)
     (simp add: e1_k3_s3_near e1_k3_s3_sort e1_k3_s3_cand e1_k3_s3_angle AddPoint_st_def push_def
        RemovePoint_st_def Let_def fun_eq_iff)

lemma e1_st_s4:
  "main_loop_st (0, 3) 3 5 1 2 (4, 0) (3 * pi / 2) 4
     \<lparr>arrays = (\<lambda>_. [])(0 := [(0, 0), (0, 3), (4, 3), (4, 0)],
                          2 := [(0, 3), (4, 3), (4, 0)], 1 := [(0, 0)]), next_ref = 3\<rparr> =
   main_loop_st (0, 3) 3 5 1 2 (0, 0) 0 5 e1_store_final"
  by (subst main_loop_st.simps)
     (simp add: e1_k3_s4_near e1_k3_s4_sort e1_k3_s4_cand e1_k3_s4_angle AddPoint_st_def push_def
        RemovePoint_st_def Let_def fun_eq_iff e1_store_final_def)

lemma e1_st_exit:
  "main_loop_st (0, 3) 3 5 1 2 (0, 0) 0 5 e1_store_final = Some (Closed_st 2 1, e1_store_final)"
  by (subst main_loop_st.simps) (simp add: e1_store_final_def)

lemma e1_st_main:
  "main_loop_st (0, 3) 3 5 1 2 (0, 3) pi 2
     \<lparr>arrays = (\<lambda>_. [])(0 := [(0, 0), (0, 3), (4, 3), (4, 0)],
                          2 := [(0, 3)], 1 := [(0, 0), (4, 3), (4, 0)]), next_ref = 3\<rparr> =
   Some (Closed_st 2 1, e1_store_final)"
  by (simp only: e1_st_s2 e1_st_s3 e1_st_s4 e1_st_exit)

lemma e1_st_calculate:
  "calculate_st 0 3 e1_store = Some (Hull_st 2, e1_store_final)"
proof -
  have a: "arrays e1_store 0 = [(0, 0), (0, 3), (4, 3), (4, 0)]" by (simp add: e1_store_def)
  have f: "arrays e1_store_final 1 = []" "arrays e1_store_final 2 = [(0, 3), (4, 3), (4, 0), (0, 0)]"
    by (simp_all add: e1_store_final_def)
  have i: "allInside_loop [] [(0, 3), (4, 3), (4, 0), (0, 0)] True (- 1) = True"
    by (simp add: allInside_loop.simps)
  show ?thesis
    by (subst calculate_st.simps)
       (simp add: a e1_st_clean e1_k3_seed new_array_def push_def RemovePoint_st_def Let_def
          e1_st_main e1_store_final_def[symmetric] f i del: One_nat_def)
qed

text \<open>
  C10. A call of \<^verbatim>\<open>calculate\<close> that returns leaves the caller's array as it was: the same
  points in the same order, whatever the result and however many retries ran. The caller's
  array is an object of the store (its reference is in use).
\<close>

theorem calculate_st_input_unchanged:
  "calculate_st pointsList k s = Some (r, s') \<Longrightarrow> pointsList < next_ref s \<Longrightarrow>
   arrays s' pointsList = arrays s pointsList"
  using calculate_st_frame[of pointsList k s "(r, s')"] by simp

text \<open>C10, an instance: the rectangle as object \<open>0\<close>; the dataset is object \<open>1\<close>, emptied by
  the three removals, and the hull returned is object \<open>2\<close>.\<close>

theorem calculate_st_input_unchanged_witness:
  "calculate_st 0 3 e1_store = Some (Hull_st 2, e1_store_final) \<and> 0 < next_ref e1_store \<and>
   arrays e1_store_final 0 = arrays e1_store 0 \<and>
   arrays e1_store 0 = [(0, 0), (0, 3), (4, 3), (4, 0)] \<and>
   arrays e1_store_final 2 = [(0, 3), (4, 3), (4, 0), (0, 0)]"
proof -
  have n: "0 < next_ref e1_store" by (simp add: e1_store_def)
  from calculate_st_input_unchanged [OF e1_st_calculate n] e1_st_calculate n
  show ?thesis by (simp add: e1_store_def e1_store_final_def)
qed

end
